theory Spec2Isabelle
  imports Main "HOL-Library.Multiset"
begin

section \<open>Data model (api/models.py)\<close>

text \<open>
  Users are referred to by their primary key. A calendar date is a day number and a
  timestamp is a number of microseconds since the epoch, both unbounded integers.
  Strings are sequences of ASCII characters.
\<close>

type_synonym user_id = nat
type_synonym date = int
type_synonym datetime = int

record Category =
  c_id :: nat
  c_name :: string
  c_owner :: user_id

record Note =
  n_id :: nat
  n_title :: string
  n_category :: "nat option"
  n_tags :: "string list"
  n_content :: string
  n_summary :: string
  n_reminder_date :: "date option"
  n_created_at :: datetime
  n_updated_at :: datetime
  n_owner :: user_id
  n_is_favorite :: bool

record NoteVersion =
  v_id :: nat
  v_note :: nat
  v_title :: string
  v_content :: string
  v_tags :: "string list"
  v_summary :: string
  v_category :: "nat option"
  v_reminder_date :: "date option"
  v_is_favorite :: bool
  v_version_number :: nat
  v_created_at :: datetime
  v_is_draft :: bool

text \<open>
  The persistent state: the three tables in insertion order, the primary-key sequences
  of the tables, and a trace of the calls made to the summary helper (the trace is only
  observed, never read by the program).
\<close>

record state =
  category_table :: "Category list"
  note_table :: "Note list"
  version_table :: "NoteVersion list"
  next_category_id :: nat
  next_note_id :: nat
  next_version_id :: nat
  summarizer_calls :: "string list"

definition init :: state where
  "init = \<lparr>category_table = [], note_table = [], version_table = [],
           next_category_id = 1, next_note_id = 1, next_version_id = 1,
           summarizer_calls = []\<rparr>"

text \<open>Exceptions of the object-relational layer, and the responses of the views.\<close>

datatype exn = DoesNotExist | MultipleObjectsReturned | IntegrityError | AssertionError

datatype body =
    NoteData Note
  | VersionData NoteVersion
  | VersionList "NoteVersion list"
  | Buckets "Note list" "Note list" "Note list" "Note list"
  | Message string string
  | FieldErrors "(string \<times> string) list"
  | Uncaught exn

datatype response = Response nat body

fun status_code :: "response \<Rightarrow> nat" where
  "status_code (Response c b) = c"

section \<open>Python string helpers\<close>

definition isspace :: "char \<Rightarrow> bool" where
  "isspace c = ((of_char c :: nat) \<in> {9, 10, 11, 12, 13, 28, 29, 30, 31, 32})"

definition strip :: "string \<Rightarrow> string" where
  "strip s = rev (dropWhile isspace (rev (dropWhile isspace s)))"

definition lower_char :: "char \<Rightarrow> char" where
  "lower_char c =
     (let k = (of_char c :: nat) in if 65 \<le> k \<and> k \<le> 90 then char_of (k + 32) else c)"

definition lower :: "string \<Rightarrow> string" where
  "lower s = map lower_char s"

definition date_of :: "datetime \<Rightarrow> date" where
  "date_of t = t div 86400000000"

section \<open>Queries\<close>

text \<open>
  \<open>Note.objects.get(pk=pk, owner=user)\<close>; \<open>None\<close> stands for \<open>Note.DoesNotExist\<close>.
\<close>

definition get_note :: "state \<Rightarrow> nat \<Rightarrow> user_id \<Rightarrow> Note option" where
  "get_note s pk u = find (\<lambda>n. n_id n = pk \<and> n_owner n = u) (note_table s)"

definition note_by_id :: "state \<Rightarrow> nat \<Rightarrow> Note option" where
  "note_by_id s pk = find (\<lambda>n. n_id n = pk) (note_table s)"

text \<open>The reverse relation \<open>note.versions\<close>.\<close>

definition versions_of :: "state \<Rightarrow> nat \<Rightarrow> NoteVersion list" where
  "versions_of s nid = filter (\<lambda>v. v_note v = nid) (version_table s)"

text \<open>
  An \<open>order_by\<close> clause is carried out by the database, which returns the rows in some
  order that respects the sort key and is free on ties. The views below therefore take
  the database's ordering as a parameter \<open>ob\<close>, and \<open>orders_by le ob\<close> says that \<open>ob\<close>
  is a legitimate one for the order \<open>le\<close>.
\<close>

definition orders_by :: "('a \<Rightarrow> 'a \<Rightarrow> bool) \<Rightarrow> ('a list \<Rightarrow> 'a list) \<Rightarrow> bool" where
  "orders_by le ob = (\<forall>rows. mset (ob rows) = mset rows \<and> sorted_wrt le (ob rows))"

text \<open>A reference ordering: insertion sort, which keeps tied rows in table order.\<close>

fun insert_by :: "('a \<Rightarrow> 'a \<Rightarrow> bool) \<Rightarrow> 'a \<Rightarrow> 'a list \<Rightarrow> 'a list" where
  "insert_by le x [] = [x]"
| "insert_by le x (y # ys) = (if le x y then x # y # ys else y # insert_by le x ys)"

fun sort_by :: "('a \<Rightarrow> 'a \<Rightarrow> bool) \<Rightarrow> 'a list \<Rightarrow> 'a list" where
  "sort_by le [] = []"
| "sort_by le (x # xs) = insert_by le x (sort_by le xs)"

text \<open>
  \<open>order_by('reminder_date', 'created_at')\<close>. The query it is applied to holds only rows
  with a reminder date; rows without one are put first here to make the order total.
\<close>

definition reminder_order :: "Note \<Rightarrow> Note \<Rightarrow> bool" where
  "reminder_order a b =
     (case n_reminder_date a of
        None \<Rightarrow> True
      | Some x \<Rightarrow>
          (case n_reminder_date b of
             None \<Rightarrow> False
           | Some y \<Rightarrow> x < y \<or> (x = y \<and> n_created_at a \<le> n_created_at b)))"


section \<open>Reminder classification (ReminderView.get)\<close>

definition notes_with_reminders :: "state \<Rightarrow> user_id \<Rightarrow> Note list" where
  "notes_with_reminders s u =
     filter (\<lambda>n. n_owner n = u \<and> n_reminder_date n \<noteq> None) (note_table s)"

definition classify ::
  "(Note list \<Rightarrow> Note list) \<Rightarrow> state \<Rightarrow> user_id \<Rightarrow> date
     \<Rightarrow> Note list \<times> Note list \<times> Note list \<times> Note list" where
  "classify ob s u today =
     (let tomorrow = today + 1;
          rows = notes_with_reminders s u;
          todays = ob (filter (\<lambda>n. n_reminder_date n = Some today) rows);
          tomorrows = ob (filter (\<lambda>n. n_reminder_date n = Some tomorrow) rows);
          overdues = ob (filter (\<lambda>n. case n_reminder_date n of
                                         None \<Rightarrow> False | Some d \<Rightarrow> d < today) rows);
          scheduleds = ob (filter (\<lambda>n. case n_reminder_date n of
                                           None \<Rightarrow> False | Some d \<Rightarrow> d > tomorrow) rows)
      in (todays, tomorrows, overdues, scheduleds))"

definition ReminderView_get ::
  "(Note list \<Rightarrow> Note list) \<Rightarrow> state \<Rightarrow> user_id \<Rightarrow> datetime \<Rightarrow> response \<times> state" where
  "ReminderView_get ob s u now =
     (case classify ob s u (date_of now) of
        (todays, tomorrows, overdues, scheduleds) \<Rightarrow>
          (Response 200 (Buckets todays tomorrows overdues scheduleds), s))"

section \<open>Note serializer (api/serializers.py)\<close>

text \<open>
  Request data as the field classes of the serializer have parsed it: a field is absent
  (\<open>None\<close>) or present with a value of its type. A reminder date may be present and null.
  The category field is a dictionary that has a \<open>name\<close> entry or lacks it, or is not a
  dictionary.
\<close>

datatype category_payload = CategoryDict "string option" | NotADict

record note_payload =
  p_title :: "string option"
  p_category :: "category_payload option"
  p_tags :: "string list option"
  p_content :: "string option"
  p_summary :: "string option"
  p_reminder_date :: "date option option"
  p_is_favorite :: "bool option"

text \<open>\<open>validated_data\<close>: the category entry is the primary key of a Category row.\<close>

record validated_data =
  vd_title :: "string option"
  vd_category :: "nat option"
  vd_tags :: "string list option"
  vd_content :: "string option"
  vd_summary :: "string option"
  vd_reminder_date :: "date option option"
  vd_is_favorite :: "bool option"

datatype 'a checked = Raised exn | Rejected string | Accepted 'a

text \<open>\<open>Category.objects.get_or_create(name=name, owner=user)\<close>.\<close>

definition get_or_create :: "state \<Rightarrow> string \<Rightarrow> user_id \<Rightarrow> exn + (Category \<times> state)" where
  "get_or_create s name u =
     (case filter (\<lambda>c. c_name c = name \<and> c_owner c = u) (category_table s) of
        [] \<Rightarrow>
          (let c = \<lparr>c_id = next_category_id s, c_name = name, c_owner = u\<rparr>
           in Inr (c, s\<lparr>category_table := category_table s @ [c],
                        next_category_id := Suc (next_category_id s)\<rparr>))
      | [c] \<Rightarrow> Inr (c, s)
      | _ \<Rightarrow> Inl MultipleObjectsReturned)"

fun validate_category ::
  "state \<Rightarrow> user_id \<Rightarrow> category_payload \<Rightarrow> Category checked \<times> state" where
  "validate_category s u NotADict = (Rejected ''Invalid category format.'', s)"
| "validate_category s u (CategoryDict None) = (Rejected ''Invalid category format.'', s)"
| "validate_category s u (CategoryDict (Some name)) =
     (case get_or_create s (lower (strip name)) u of
        Inl e \<Rightarrow> (Raised e, s)
      | Inr (c, s') \<Rightarrow> (Accepted c, s'))"

definition validate_reminder_date :: "datetime \<Rightarrow> date option \<Rightarrow> (date option) checked" where
  "validate_reminder_date now v =
     (case v of
        None \<Rightarrow> Accepted None
      | Some d \<Rightarrow>
          if d < date_of now then Rejected ''Reminder date cannot be in the past.''
          else Accepted (Some d))"

text \<open>
  \<open>is_valid\<close> walks the declared fields in order (title, category, tags, content,
  summary, reminder_date, is_favorite), runs the \<open>validate_<field>\<close> hooks on the way
  and collects the errors of all fields. A full (non-partial) request must carry title,
  category, tags and content. An exception that is not a validation error leaves
  \<open>is_valid\<close> at once.
\<close>

datatype validation = Crashed exn | Errors "(string \<times> string) list" | Validated validated_data

definition required :: "bool \<Rightarrow> string \<Rightarrow> 'a option \<Rightarrow> (string \<times> string) list" where
  "required partial name v =
     (if \<not> partial \<and> v = None then [(name, ''This field is required.'')] else [])"

definition run_category ::
  "state \<Rightarrow> user_id \<Rightarrow> category_payload option \<Rightarrow> (nat option) checked \<times> state" where
  "run_category s u v =
     (case v of
        None \<Rightarrow> (Accepted None, s)
      | Some value \<Rightarrow>
          (case validate_category s u value of
             (Raised e, s1) \<Rightarrow> (Raised e, s1)
           | (Rejected m, s1) \<Rightarrow> (Rejected m, s1)
           | (Accepted c, s1) \<Rightarrow> (Accepted (Some (c_id c)), s1)))"

definition run_reminder_date ::
  "datetime \<Rightarrow> date option option \<Rightarrow> (date option option) checked" where
  "run_reminder_date now v =
     (case v of
        None \<Rightarrow> Accepted None
      | Some d \<Rightarrow>
          (case validate_reminder_date now d of
             Accepted d' \<Rightarrow> Accepted (Some d')
           | Rejected m \<Rightarrow> Rejected m
           | Raised e \<Rightarrow> Raised e))"

definition field_errors :: "string \<Rightarrow> 'a checked \<Rightarrow> (string \<times> string) list" where
  "field_errors name r = (case r of Rejected m \<Rightarrow> [(name, m)] | _ \<Rightarrow> [])"

definition accepted_or :: "'a \<Rightarrow> 'a checked \<Rightarrow> 'a" where
  "accepted_or d r = (case r of Accepted v \<Rightarrow> v | _ \<Rightarrow> d)"

definition is_valid ::
  "bool \<Rightarrow> state \<Rightarrow> user_id \<Rightarrow> datetime \<Rightarrow> note_payload \<Rightarrow> validation \<times> state" where
  "is_valid partial s u now p =
     (case run_category s u (p_category p) of
        (Raised e, s') \<Rightarrow> (Crashed e, s')
      | (cat, s') \<Rightarrow>
          (let rd = run_reminder_date now (p_reminder_date p);
               errors = required partial ''title'' (p_title p)
                        @ field_errors ''category'' cat
                        @ required partial ''category'' (p_category p)
                        @ required partial ''tags'' (p_tags p)
                        @ required partial ''content'' (p_content p)
                        @ field_errors ''reminder_date'' rd
           in if errors \<noteq> [] then (Errors errors, s')
              else (Validated
                     \<lparr>vd_title = p_title p,
                      vd_category = accepted_or None cat,
                      vd_tags = p_tags p,
                      vd_content = p_content p,
                      vd_summary = p_summary p,
                      vd_reminder_date = accepted_or None rd,
                      vd_is_favorite = p_is_favorite p\<rparr>, s')))"

subsection \<open>The external summarizer\<close>

text \<open>
  What the environment holds for one call of \<open>_get_openrouter_summary\<close>: the value of
  \<open>OPENROUTER_API_KEY\<close>, and what the HTTP exchange would do: raise a
  \<open>RequestException\<close> (network error, timeout, error status), yield a document of the
  wrong shape (\<open>KeyError\<close>/\<open>IndexError\<close>), raise any other exception, or deliver the text
  of the first choice. The string carried by a failure is \<open>str(e)\<close>.
\<close>

datatype http_outcome =
    RequestException string
  | KeyOrIndexError string
  | OtherException string
  | Content string

record summarizer_env =
  api_key :: "string option"
  outcome :: http_outcome

definition openrouter_summary :: "summarizer_env \<Rightarrow> string \<Rightarrow> string" where
  "openrouter_summary env content =
     (if api_key env = None \<or> api_key env = Some []
      then ''Summary unavailable: OPENROUTER_API_KEY not set in .env''
      else (case outcome env of
              Content c \<Rightarrow>
                (let summary = strip c
                 in if summary \<noteq> [] then summary
                    else ''Summary generation returned empty result.'')
            | RequestException e \<Rightarrow> ''Summary unavailable: OpenRouter API error - '' @ e
            | KeyOrIndexError e \<Rightarrow>
                ''Summary unavailable: Invalid response format from OpenRouter - '' @ e
            | OtherException e \<Rightarrow> ''Summary unavailable: '' @ e))"

text \<open>The helper as called by the serializer; every call is recorded in the trace.\<close>

definition get_openrouter_summary ::
  "state \<Rightarrow> summarizer_env \<Rightarrow> string \<Rightarrow> string \<times> state" where
  "get_openrouter_summary s env content =
     (openrouter_summary env content,
      s\<lparr>summarizer_calls := summarizer_calls s @ [content]\<rparr>)"

subsection \<open>create and update\<close>

text \<open>
  \<open>NoteSerializer.create\<close>, ending in \<open>Note.objects.create(**validated_data)\<close>: a field
  that is not in \<open>validated_data\<close> takes the default of its model field.
\<close>

definition NoteSerializer_create ::
  "state \<Rightarrow> user_id \<Rightarrow> datetime \<Rightarrow> summarizer_env \<Rightarrow> validated_data \<Rightarrow> Note \<times> state" where
  "NoteSerializer_create s u now env vd =
     (let content = (case vd_content vd of None \<Rightarrow> [] | Some c \<Rightarrow> c);
          (summary, s1) = (if content \<noteq> [] then get_openrouter_summary s env content
                           else ([], s));
          n = \<lparr>n_id = next_note_id s1,
               n_title = (case vd_title vd of None \<Rightarrow> [] | Some t \<Rightarrow> t),
               n_category = vd_category vd,
               n_tags = (case vd_tags vd of None \<Rightarrow> [] | Some ts \<Rightarrow> ts),
               n_content = (case vd_content vd of None \<Rightarrow> [] | Some c \<Rightarrow> c),
               n_summary = summary,
               n_reminder_date = (case vd_reminder_date vd of None \<Rightarrow> None | Some d \<Rightarrow> d),
               n_created_at = now,
               n_updated_at = now,
               n_owner = u,
               n_is_favorite = (case vd_is_favorite vd of None \<Rightarrow> False | Some b \<Rightarrow> b)\<rparr>
      in (n, s1\<lparr>note_table := note_table s1 @ [n], next_note_id := Suc (next_note_id s1)\<rparr>))"

text \<open>\<open>instance.save()\<close>: the row with the instance's primary key is overwritten.\<close>

definition save_note :: "state \<Rightarrow> Note \<Rightarrow> state" where
  "save_note s n =
     s\<lparr>note_table := map (\<lambda>m. if n_id m = n_id n then n else m) (note_table s)\<rparr>"

definition NoteSerializer_update ::
  "state \<Rightarrow> datetime \<Rightarrow> summarizer_env \<Rightarrow> Note \<Rightarrow> validated_data \<Rightarrow> Note \<times> state" where
  "NoteSerializer_update s now env instance vd =
     (let (vd', s1) =
            (case vd_content vd of
               None \<Rightarrow> (vd, s)
             | Some new_content \<Rightarrow>
                 if new_content \<noteq> n_content instance
                 then (case get_openrouter_summary s env new_content of
                         (summary, s1) \<Rightarrow> (vd\<lparr>vd_summary := Some summary\<rparr>, s1))
                 else (vd, s));
          n = instance
               \<lparr>n_title := (case vd_title vd' of None \<Rightarrow> n_title instance | Some t \<Rightarrow> t),
                n_category := (case vd_category vd' of
                                 None \<Rightarrow> n_category instance | Some c \<Rightarrow> Some c),
                n_tags := (case vd_tags vd' of None \<Rightarrow> n_tags instance | Some ts \<Rightarrow> ts),
                n_content := (case vd_content vd' of None \<Rightarrow> n_content instance | Some c \<Rightarrow> c),
                n_summary := (case vd_summary vd' of None \<Rightarrow> n_summary instance | Some x \<Rightarrow> x),
                n_reminder_date := (case vd_reminder_date vd' of
                                      None \<Rightarrow> n_reminder_date instance | Some d \<Rightarrow> d),
                n_is_favorite := (case vd_is_favorite vd' of
                                    None \<Rightarrow> n_is_favorite instance | Some b \<Rightarrow> b),
                n_updated_at := now\<rparr>
      in (n, save_note s1 n))"

section \<open>Note views (api/views.py)\<close>

definition CreateNoteView_post ::
  "state \<Rightarrow> user_id \<Rightarrow> datetime \<Rightarrow> summarizer_env \<Rightarrow> note_payload \<Rightarrow> response \<times> state" where
  "CreateNoteView_post s u now env p =
     (case is_valid False s u now p of
        (Crashed e, s') \<Rightarrow> (Response 500 (Uncaught e), s')
      | (Errors es, s') \<Rightarrow> (Response 400 (FieldErrors es), s')
      | (Validated vd, s') \<Rightarrow>
          (case NoteSerializer_create s' u now env vd of
             (n, s'') \<Rightarrow> (Response 201 (NoteData n), s'')))"

definition NoteDetailView_put ::
  "state \<Rightarrow> user_id \<Rightarrow> datetime \<Rightarrow> summarizer_env \<Rightarrow> nat \<Rightarrow> note_payload
     \<Rightarrow> response \<times> state" where
  "NoteDetailView_put s u now env pk p =
     (case get_note s pk u of
        None \<Rightarrow> (Response 404 (Message ''error'' ''Note not found''), s)
      | Some instance \<Rightarrow>
          (case is_valid True s u now p of
             (Crashed e, s') \<Rightarrow> (Response 500 (Uncaught e), s')
           | (Errors es, s') \<Rightarrow> (Response 400 (FieldErrors es), s')
           | (Validated vd, s') \<Rightarrow>
               (case NoteSerializer_update s' now env instance vd of
                  (n, s'') \<Rightarrow> (Response 200 (NoteData n), s''))))"

text \<open>\<open>note.delete()\<close> removes the row and, by \<open>on_delete=CASCADE\<close>, its versions.\<close>

definition delete_note :: "state \<Rightarrow> nat \<Rightarrow> state" where
  "delete_note s pk =
     s\<lparr>note_table := filter (\<lambda>n. n_id n \<noteq> pk) (note_table s),
       version_table := filter (\<lambda>v. v_note v \<noteq> pk) (version_table s)\<rparr>"

definition NoteDetailView_delete :: "state \<Rightarrow> user_id \<Rightarrow> nat \<Rightarrow> response \<times> state" where
  "NoteDetailView_delete s u pk =
     (case get_note s pk u of
        None \<Rightarrow> (Response 404 (Message ''error'' ''Note not found''), s)
      | Some n \<Rightarrow>
          (Response 204 (Message ''success'' ''Note deleted successfully''),
           delete_note s (n_id n)))"

subsection \<open>Bulk deletion by category and by tag\<close>

text \<open>
  \<open>QuerySet.delete()\<close> removes every row of the query, each with its versions.
\<close>

fun delete_notes :: "state \<Rightarrow> nat list \<Rightarrow> state" where
  "delete_notes s [] = s"
| "delete_notes s (pk # pks) = delete_notes (delete_note s pk) pks"

text \<open>
  The lookup \<open>icontains\<close>: the name holds the pattern as a contiguous part, letter case
  set aside.
\<close>

fun contains :: "string \<Rightarrow> string \<Rightarrow> bool" where
  "contains pat [] = (pat = [])"
| "contains pat (x # xs) = (take (length pat) (x # xs) = pat \<or> contains pat xs)"

definition icontains :: "string \<Rightarrow> string \<Rightarrow> bool" where
  "icontains name pat = contains (lower pat) (lower name)"

text \<open>
  \<open>filter(category__name__icontains=category, category__owner=request.user)\<close> and
  \<open>filter(tags__contains=[tag], owner=request.user)\<close>.
\<close>

definition category_matches :: "state \<Rightarrow> user_id \<Rightarrow> string \<Rightarrow> Note \<Rightarrow> bool" where
  "category_matches s u category n =
     (case n_category n of
        None \<Rightarrow> False
      | Some k \<Rightarrow>
          list_ex (\<lambda>c. c_id c = k \<and> icontains (c_name c) category \<and> c_owner c = u)
            (category_table s))"

definition tag_matches :: "user_id \<Rightarrow> string \<Rightarrow> Note \<Rightarrow> bool" where
  "tag_matches u tag n = (tag \<in> set (n_tags n) \<and> n_owner n = u)"

text \<open>
  When the query is empty, both methods end without a \<open>return\<close>; the framework refuses
  the missing response with an assertion failure.
\<close>

definition NoteCategorySearchView_delete ::
  "state \<Rightarrow> user_id \<Rightarrow> string \<Rightarrow> response \<times> state" where
  "NoteCategorySearchView_delete s u category =
     (let note = filter (category_matches s u category) (note_table s)
      in if note \<noteq> []
         then (Response 204 (Message ''success'' ''Note deleted successfully''),
               delete_notes s (map n_id note))
         else (Response 500 (Uncaught AssertionError), s))"

definition NoteTagSearchView_delete ::
  "state \<Rightarrow> user_id \<Rightarrow> string \<Rightarrow> response \<times> state" where
  "NoteTagSearchView_delete s u tag =
     (let note = filter (tag_matches u tag) (note_table s)
      in if note \<noteq> []
         then (Response 204 (Message ''success'' ''Note deleted successfully''),
               delete_notes s (map n_id note))
         else (Response 500 (Uncaught AssertionError), s))"

section \<open>Drafts, version history and restore (api/views.py)\<close>

text \<open>
  \<open>NoteVersion.objects.create(...)\<close>: the primary key and \<open>created_at\<close> are assigned on
  insertion. The insertion raises \<open>IntegrityError\<close> when it breaks
  \<open>unique_together = ['note', 'version_number']\<close> or when the category key refers to
  no Category row.
\<close>

definition category_exists :: "state \<Rightarrow> nat option \<Rightarrow> bool" where
  "category_exists s c =
     (case c of None \<Rightarrow> True | Some k \<Rightarrow> k \<in> set (map c_id (category_table s)))"

definition NoteVersion_create ::
  "state \<Rightarrow> datetime \<Rightarrow> NoteVersion \<Rightarrow> exn + (NoteVersion \<times> state)" where
  "NoteVersion_create s now v0 =
     (if (v_note v0, v_version_number v0)
           \<in> set (map (\<lambda>w. (v_note w, v_version_number w)) (version_table s))
      then Inl IntegrityError
      else if \<not> category_exists s (v_category v0) then Inl IntegrityError
      else (let v = v0\<lparr>v_id := next_version_id s, v_created_at := now\<rparr>
            in Inr (v, s\<lparr>version_table := version_table s @ [v],
                         next_version_id := Suc (next_version_id s)\<rparr>)))"

text \<open>
  The body of a draft request: each field absent or present; the category key and the
  reminder date may be present and null.
\<close>

record draft_payload =
  d_title :: "string option"
  d_content :: "string option"
  d_tags :: "string list option"
  d_summary :: "string option"
  d_category_id :: "nat option option"
  d_reminder_date :: "date option option"
  d_is_favorite :: "bool option"

text \<open>\<open>data.get(key, default)\<close>.\<close>

definition dict_get :: "'a option \<Rightarrow> 'a \<Rightarrow> 'a" where
  "dict_get entry dflt = (case entry of None \<Rightarrow> dflt | Some v \<Rightarrow> v)"

text \<open>
  The \<open>note_id\<close> argument defaults to \<open>None\<close>; \<open>if note_id:\<close> takes \<open>None\<close> and \<open>0\<close>
  as false. \<open>truthy\<close> yields the identifier in the true case.
\<close>

definition truthy :: "nat option \<Rightarrow> nat option" where
  "truthy k = (case k of None \<Rightarrow> None | Some i \<Rightarrow> if i = 0 then None else Some i)"

definition DraftView_post ::
  "state \<Rightarrow> user_id \<Rightarrow> datetime \<Rightarrow> nat option \<Rightarrow> draft_payload \<Rightarrow> response \<times> state" where
  "DraftView_post s u now note_id data =
     (case truthy note_id of
        None \<Rightarrow> (Response 400 (Message ''error'' ''Note ID required for drafts''), s)
      | Some i \<Rightarrow>
        (case get_note s i u of
           None \<Rightarrow> (Response 404 (Message ''error'' ''Note not found''), s)
         | Some note \<Rightarrow>
             (let next_version = length (versions_of s (n_id note)) + 1
              in case NoteVersion_create s now
                        \<lparr>v_id = 0,
                         v_note = n_id note,
                         v_title = dict_get (d_title data) (n_title note),
                         v_content = dict_get (d_content data) (n_content note),
                         v_tags = dict_get (d_tags data) (n_tags note),
                         v_summary = dict_get (d_summary data) (n_summary note),
                         v_category = dict_get (d_category_id data) (n_category note),
                         v_reminder_date = dict_get (d_reminder_date data) (n_reminder_date note),
                         v_is_favorite = dict_get (d_is_favorite data) (n_is_favorite note),
                         v_version_number = next_version,
                         v_created_at = now,
                         v_is_draft = True\<rparr> of
                   Inl e \<Rightarrow> (Response 500 (Uncaught e), s)
                 | Inr (version, s') \<Rightarrow> (Response 201 (VersionData version), s'))))"


text \<open>
  \<open>NoteVersion.objects.get(id=version_id, note_id=note_id, note__owner=request.user)\<close>,
  together with the \<open>version.note\<close> it leads to; \<open>None\<close> is \<open>NoteVersion.DoesNotExist\<close>.
\<close>

definition owned_by :: "state \<Rightarrow> nat \<Rightarrow> user_id \<Rightarrow> bool" where
  "owned_by s nid u = (case note_by_id s nid of None \<Rightarrow> False | Some n \<Rightarrow> n_owner n = u)"

definition get_version ::
  "state \<Rightarrow> nat option \<Rightarrow> nat \<Rightarrow> user_id \<Rightarrow> (NoteVersion \<times> Note) option" where
  "get_version s version_id note_id u =
     (case version_id of
        None \<Rightarrow> None
      | Some i \<Rightarrow>
          (case find (\<lambda>v. v_id v = i \<and> v_note v = note_id \<and> owned_by s (v_note v) u)
                  (version_table s) of
             None \<Rightarrow> None
           | Some v \<Rightarrow>
               (case note_by_id s (v_note v) of
                  None \<Rightarrow> None
                | Some n \<Rightarrow> Some (v, n))))"

text \<open>
  The restore: the version row created at the end is given \<open>note\<close>, \<open>title\<close>,
  \<open>content\<close>, \<open>version_number\<close> and \<open>is_draft\<close>; its other columns take the defaults
  of the model.
\<close>

definition VersionHistoryView_post ::
  "state \<Rightarrow> user_id \<Rightarrow> datetime \<Rightarrow> nat \<Rightarrow> nat option \<Rightarrow> response \<times> state" where
  "VersionHistoryView_post s u now note_id version_id =
     (case get_version s version_id note_id u of
        None \<Rightarrow> (Response 404 (Message ''error'' ''Version not found''), s)
      | Some (version, note0) \<Rightarrow>
          (let note = note0\<lparr>n_title := v_title version,
                           n_content := v_content version,
                           n_tags := v_tags version,
                           n_summary := v_summary version,
                           n_category := v_category version,
                           n_reminder_date := v_reminder_date version,
                           n_is_favorite := v_is_favorite version,
                           n_updated_at := now\<rparr>;
               s1 = save_note s note
           in case NoteVersion_create s1 now
                     \<lparr>v_id = 0,
                      v_note = n_id note,
                      v_title = n_title note,
                      v_content = n_content note,
                      v_tags = [],
                      v_summary = [],
                      v_category = None,
                      v_reminder_date = None,
                      v_is_favorite = False,
                      v_version_number = length (versions_of s1 (n_id note)) + 1,
                      v_created_at = now,
                      v_is_draft = False\<rparr> of
                Inl e \<Rightarrow> (Response 500 (Uncaught e), s1)
              | Inr (w, s2) \<Rightarrow> (Response 200 (Message ''success'' ''Version restored''), s2)))"

section \<open>Sequences of requests\<close>

datatype request =
    CreateNote user_id datetime summarizer_env note_payload
  | UpdateNote user_id datetime summarizer_env nat note_payload
  | DeleteNote user_id nat
  | DeleteByCategory user_id string
  | DeleteByTag user_id string
  | SaveDraft user_id datetime "nat option" draft_payload
  | RestoreVersion user_id datetime nat "nat option"

fun handle :: "request \<Rightarrow> state \<Rightarrow> response \<times> state" where
  "handle (CreateNote u now env p) s = CreateNoteView_post s u now env p"
| "handle (UpdateNote u now env pk p) s = NoteDetailView_put s u now env pk p"
| "handle (DeleteNote u pk) s = NoteDetailView_delete s u pk"
| "handle (DeleteByCategory u category) s = NoteCategorySearchView_delete s u category"
| "handle (DeleteByTag u tag) s = NoteTagSearchView_delete s u tag"
| "handle (SaveDraft u now note_id data) s = DraftView_post s u now note_id data"
| "handle (RestoreVersion u now note_id version_id) s =
     VersionHistoryView_post s u now note_id version_id"

fun run :: "request list \<Rightarrow> state \<Rightarrow> state" where
  "run [] s = s"
| "run (r # rs) s = run rs (snd (handle r s))"

section \<open>Example requests\<close>

text \<open>
  Two users, a summarizer without credential, and a day expressed as a timestamp.
\<close>

definition day :: "int \<Rightarrow> datetime" where
  "day d = d * 86400000000"

definition env_down :: summarizer_env where
  "env_down = \<lparr>api_key = None, outcome = Content []\<rparr>"

definition example_payload :: "date option \<Rightarrow> note_payload" where
  "example_payload d =
     \<lparr>p_title = Some ''plan'', p_category = Some (CategoryDict (Some '' Work '')),
      p_tags = Some [''x''], p_content = Some ''text'', p_summary = None,
      p_reminder_date = Some d, p_is_favorite = None\<rparr>"

definition example_create :: "user_id \<Rightarrow> date option \<Rightarrow> request" where
  "example_create u d = CreateNote u (day 99) env_down (example_payload d)"

definition reminder_example :: state where
  "reminder_example =
     run [example_create 1 (Some 99), example_create 1 (Some 100),
          example_create 1 (Some 101), example_create 1 (Some 105),
          example_create 1 None, example_create 2 (Some 100)] init"

definition reminder_buckets :: "Note list \<times> Note list \<times> Note list \<times> Note list" where
  "reminder_buckets = classify (sort_by reminder_order) reminder_example 1 100"

text \<open>A draft body without fields, and the history of two notes of two users.\<close>

definition empty_draft :: draft_payload where
  "empty_draft =
     \<lparr>d_title = None, d_content = None, d_tags = None, d_summary = None,
      d_category_id = None, d_reminder_date = None, d_is_favorite = None\<rparr>"

definition history_example :: state where
  "history_example =
     run [example_create 1 (Some 100), example_create 2 (Some 100),
          SaveDraft 1 (day 99) (Some 1) empty_draft,
          SaveDraft 2 (day 99) (Some 2) empty_draft] init"

text \<open>One stored note, and two partial payloads for it.\<close>

definition update_example :: state where
  "update_example = run [example_create 1 (Some 100)] init"

definition title_only :: note_payload where
  "title_only =
     \<lparr>p_title = Some ''new title'', p_category = None, p_tags = None, p_content = None,
      p_summary = None, p_reminder_date = None, p_is_favorite = None\<rparr>"

definition new_content :: note_payload where
  "new_content = title_only\<lparr>p_title := None, p_content := Some ''other text''\<rparr>"



text \<open>A draft body with a new title, and one with a category key that no row has.\<close>

definition titled_draft :: draft_payload where
  "titled_draft = empty_draft\<lparr>d_title := Some ''draft title''\<rparr>"


text \<open>A note, a draft of it, and the restore of that draft.\<close>

definition restore_requests :: "request list" where
  "restore_requests =
     [example_create 1 (Some 100),
      SaveDraft 1 (day 99) (Some 1) empty_draft,
      RestoreVersion 1 (day 100) 1 (Some 1)]"

definition restore_example :: state where
  "restore_example = run restore_requests init"

text \<open>A note and an update that changes its content.\<close>

definition edit_requests :: "request list" where
  "edit_requests =
     [example_create 1 (Some 100), UpdateNote 1 (day 100) env_down 1 new_content]"

text \<open>Two notes with drafts, the deletion of one note, and a restore on the other.\<close>

definition numbering_requests :: "request list" where
  "numbering_requests =
     [example_create 1 (Some 100), example_create 1 (Some 100),
      SaveDraft 1 (day 99) (Some 1) empty_draft,
      SaveDraft 1 (day 99) (Some 2) empty_draft,
      SaveDraft 1 (day 99) (Some 1) titled_draft,
      DeleteNote 1 2,
      RestoreVersion 1 (day 100) 1 (Some 1)]"

section \<open>Invariants of the stored state\<close>

text \<open>
  \<open>cat_extends s s'\<close>: the state \<open>s'\<close> is \<open>s\<close> with Category rows appended, which is all
  that validation can do to the state.
\<close>

definition cat_extends :: "state \<Rightarrow> state \<Rightarrow> bool" where
  "cat_extends s s' =
     (\<exists>cs. s' = s\<lparr>category_table := category_table s @ cs,
                    next_category_id := next_category_id s + length cs\<rparr>)"

text \<open>
  The properties every state reached from the empty database has: note keys are distinct,
  positive and below the sequence; every version belongs to a stored note; the versions
  of a note carry the numbers 1, 2, ... in the order of their insertion; version keys
  increase along the table and lie below the sequence; category keys held by notes and
  versions refer to stored categories.
\<close>

definition note_ids_ok :: "state \<Rightarrow> bool" where
  "note_ids_ok s =
     (distinct (map n_id (note_table s))
      \<and> (\<forall>n\<in>set (note_table s). 0 < n_id n \<and> n_id n < next_note_id s))"

definition versions_attached :: "state \<Rightarrow> bool" where
  "versions_attached s =
     (\<forall>v\<in>set (version_table s). v_note v \<in> set (map n_id (note_table s)))"

definition numbered :: "state \<Rightarrow> bool" where
  "numbered s =
     (\<forall>nid. map v_version_number (versions_of s nid)
              = map Suc [0..<length (versions_of s nid)])"

definition version_ids_ok :: "state \<Rightarrow> bool" where
  "version_ids_ok s =
     (sorted_wrt (<) (map v_id (version_table s))
      \<and> (\<forall>v\<in>set (version_table s). v_id v < next_version_id s))"

definition categories_ok :: "state \<Rightarrow> bool" where
  "categories_ok s =
     ((\<forall>n\<in>set (note_table s). category_exists s (n_category n))
      \<and> (\<forall>v\<in>set (version_table s). category_exists s (v_category v)))"

definition wf :: "state \<Rightarrow> bool" where
  "wf s = (0 < next_note_id s \<and> note_ids_ok s \<and> versions_attached s \<and> numbered s
           \<and> version_ids_ok s \<and> categories_ok s)"

section \<open>Summarizer failures\<close>

text \<open>
  The summarizer fails when the credential is missing or empty or when the HTTP exchange
  ends in an exception. A placeholder is a summary that starts with the words
  \<open>Summary unavailable: \<close>.
\<close>

definition summarizer_failed :: "summarizer_env \<Rightarrow> bool" where
  "summarizer_failed env =
     (api_key env = None \<or> api_key env = Some []
      \<or> (case outcome env of Content c \<Rightarrow> False | _ \<Rightarrow> True))"

definition placeholder :: "string \<Rightarrow> bool" where
  "placeholder x = (take 21 x = ''Summary unavailable: '')"

section \<open>The listing order as the specification words it\<close>



section \<open>Counting the events of a request sequence\<close>

text \<open>
  Whether a request, handled in a state, is a successful draft save for the note, a
  successful restore on the note, or an update that changes the stored content of the
  note; the number of requests of a sequence that are such events, each judged in the
  state it is handled in; and the version count the specification words state: updates
  that change the content plus draft saves plus restores.
\<close>

text \<open>The keys of the notes that a request, handled in a state, deletes.\<close>

definition deleted_ids :: "request \<Rightarrow> state \<Rightarrow> nat list" where
  "deleted_ids r s =
     (case r of
        DeleteNote u pk \<Rightarrow> (case get_note s pk u of None \<Rightarrow> [] | Some n \<Rightarrow> [n_id n])
      | DeleteByCategory u category \<Rightarrow>
          map n_id (filter (category_matches s u category) (note_table s))
      | DeleteByTag u tag \<Rightarrow> map n_id (filter (tag_matches u tag) (note_table s))
      | _ \<Rightarrow> [])"

definition draft_saved :: "nat \<Rightarrow> request \<Rightarrow> state \<Rightarrow> bool" where
  "draft_saved nid r s =
     (case r of
        SaveDraft u now note_id data \<Rightarrow>
          note_id = Some nid \<and> status_code (fst (handle r s)) = 201
      | _ \<Rightarrow> False)"

definition restored :: "nat \<Rightarrow> request \<Rightarrow> state \<Rightarrow> bool" where
  "restored nid r s =
     (case r of
        RestoreVersion u now note_id version_id \<Rightarrow>
          note_id = nid \<and> status_code (fst (handle r s)) = 200
      | _ \<Rightarrow> False)"

definition content_changed :: "nat \<Rightarrow> request \<Rightarrow> state \<Rightarrow> bool" where
  "content_changed nid r s =
     (case r of
        UpdateNote u now env pk p \<Rightarrow>
          pk = nid \<and> status_code (fst (handle r s)) = 200
          \<and> map n_content (filter (\<lambda>n. n_id n = nid) (note_table (snd (handle r s))))
              \<noteq> map n_content (filter (\<lambda>n. n_id n = nid) (note_table s))
      | _ \<Rightarrow> False)"

fun count_along :: "(request \<Rightarrow> state \<Rightarrow> bool) \<Rightarrow> request list \<Rightarrow> state \<Rightarrow> nat" where
  "count_along P [] s = 0"
| "count_along P (r # rs) s = (if P r s then 1 else 0) + count_along P rs (snd (handle r s))"

definition spec_version_count :: "nat \<Rightarrow> request list \<Rightarrow> state \<Rightarrow> nat" where
  "spec_version_count nid rs s =
     count_along (content_changed nid) rs s + count_along (draft_saved nid) rs s
       + count_along (restored nid) rs s"

section \<open>Orderings\<close>

lemma mset_insert_by: "mset (insert_by le x xs) = add_mset x (mset xs)"
  by (induction xs) auto

lemma mset_sort_by: "mset (sort_by le xs) = mset xs"
  by (induction xs) (auto simp: mset_insert_by)

lemma set_insert_by: "set (insert_by le x xs) = insert x (set xs)"
  by (induction xs) auto

lemma sorted_insert_by:
  assumes total: "\<And>a b. le a b \<or> le b a"
      and trans: "\<And>a b c. le a b \<Longrightarrow> le b c \<Longrightarrow> le a c"
  shows "sorted_wrt le xs \<Longrightarrow> sorted_wrt le (insert_by le x xs)"
proof (induction xs)
  case Nil
  show ?case by simp
next
  case (Cons y ys)
  show ?case
  proof (cases "le x y")
    case True
    with Cons.prems show ?thesis by (auto intro: trans)
  next
    case False
    then have "le y x" using total by blast
    with Cons False show ?thesis by (auto simp: set_insert_by)
  qed
qed

lemma sorted_sort_by:
  assumes "\<And>a b. le a b \<or> le b a"
      and "\<And>a b c. le a b \<Longrightarrow> le b c \<Longrightarrow> le a c"
  shows "sorted_wrt le (sort_by le xs)"
proof (induction xs)
  case Nil
  show ?case by simp
next
  case (Cons x xs)
  have "sorted_wrt le (insert_by le x (sort_by le xs))"
    by (rule sorted_insert_by) (use assms Cons.IH in blast)+
  then show ?case by simp
qed

lemma orders_by_sort_by:
  assumes "\<And>a b. le a b \<or> le b a"
      and "\<And>a b c. le a b \<Longrightarrow> le b c \<Longrightarrow> le a c"
  shows "orders_by le (sort_by le)"
proof -
  have "sorted_wrt le (sort_by le rows)" for rows
    by (rule sorted_sort_by) (use assms in blast)+
  then show ?thesis
    by (simp add: orders_by_def mset_sort_by)
qed

lemma orders_by_reminder_order: "orders_by reminder_order (sort_by reminder_order)"
  by (rule orders_by_sort_by) (auto simp: reminder_order_def split: option.splits)


lemma orders_by_set: "orders_by le ob \<Longrightarrow> set (ob rows) = set rows"
  unfolding orders_by_def by (metis set_mset_mset)

lemma orders_by_distinct: "orders_by le ob \<Longrightarrow> distinct (ob rows) = distinct rows"
  unfolding orders_by_def by (metis mset_eq_imp_distinct_iff)

section \<open>What validation does to the state\<close>

lemma cat_extends_refl: "cat_extends s s"
  unfolding cat_extends_def by (rule exI [of _ "[]"]) simp

lemma get_or_create_cases:
  "(\<exists>e. get_or_create s name u = Inl e)
   \<or> (\<exists>c. get_or_create s name u = Inr (c, s) \<and> c \<in> set (category_table s)
          \<and> c_name c = name \<and> c_owner c = u)
   \<or> (filter (\<lambda>c. c_name c = name \<and> c_owner c = u) (category_table s) = []
      \<and> get_or_create s name u =
          Inr (\<lparr>c_id = next_category_id s, c_name = name, c_owner = u\<rparr>,
               s\<lparr>category_table := category_table s
                      @ [\<lparr>c_id = next_category_id s, c_name = name, c_owner = u\<rparr>],
                 next_category_id := Suc (next_category_id s)\<rparr>))"
proof (cases "filter (\<lambda>c. c_name c = name \<and> c_owner c = u) (category_table s)")
  case Nil
  then show ?thesis by (simp add: get_or_create_def Let_def)
next
  case (Cons c cs)
  then have "c \<in> set (filter (\<lambda>c. c_name c = name \<and> c_owner c = u) (category_table s))"
    by simp
  then have "c \<in> set (category_table s) \<and> c_name c = name \<and> c_owner c = u" by simp
  with Cons show ?thesis by (cases cs) (simp_all add: get_or_create_def)
qed

lemma get_or_create_extends:
  "get_or_create s name u = Inr (c, s') \<Longrightarrow>
     cat_extends s s' \<and> c_id c \<in> set (map c_id (category_table s'))"
  using get_or_create_cases [of s name u]
proof (elim disjE exE conjE)
  fix c' assume "get_or_create s name u = Inr (c, s')" "get_or_create s name u = Inr (c', s)"
    "c' \<in> set (category_table s)"
  then show ?thesis by (auto simp: cat_extends_refl)
next
  assume a: "get_or_create s name u = Inr (c, s')"
    and b: "get_or_create s name u =
          Inr (\<lparr>c_id = next_category_id s, c_name = name, c_owner = u\<rparr>,
               s\<lparr>category_table := category_table s
                      @ [\<lparr>c_id = next_category_id s, c_name = name, c_owner = u\<rparr>],
                 next_category_id := Suc (next_category_id s)\<rparr>)"
  from a b have c: "c = \<lparr>c_id = next_category_id s, c_name = name, c_owner = u\<rparr>"
    and s': "s' = s\<lparr>category_table := category_table s @ [c],
                 next_category_id := Suc (next_category_id s)\<rparr>" by auto
  have "cat_extends s s'" unfolding cat_extends_def s'
    by (rule exI [of _ "[c]"]) simp
  then show ?thesis by (simp add: s')
qed auto

lemma run_category_extends:
  "run_category s u v = (r, s') \<Longrightarrow>
     cat_extends s s' \<and> (\<forall>k. r = Accepted (Some k) \<longrightarrow> k \<in> set (map c_id (category_table s')))"
proof (cases v)
  case None
  assume "run_category s u v = (r, s')"
  with None show ?thesis by (auto simp: run_category_def cat_extends_refl)
next
  case (Some cv)
  assume a: "run_category s u v = (r, s')"
  show ?thesis
  proof (cases cv)
    case NotADict
    with a Some show ?thesis by (auto simp: run_category_def cat_extends_refl)
  next
    case (CategoryDict nm)
    show ?thesis
    proof (cases nm)
      case None
      with a Some CategoryDict show ?thesis by (auto simp: run_category_def cat_extends_refl)
    next
      case (Some name)
      show ?thesis
      proof (cases "get_or_create s (lower (strip name)) u")
        case (Inl e)
        with a \<open>v = Some cv\<close> CategoryDict Some show ?thesis
          by (auto simp: run_category_def cat_extends_refl)
      next
        case (Inr cs)
        obtain c s1 where cs: "cs = (c, s1)" by (cases cs)
        from get_or_create_extends [OF Inr [unfolded cs]]
        have "cat_extends s s1" "c_id c \<in> set (map c_id (category_table s1))" by simp_all
        with a \<open>v = Some cv\<close> CategoryDict Some Inr cs show ?thesis
          by (auto simp: run_category_def)
      qed
    qed
  qed
qed

lemma is_valid_extends:
  assumes "is_valid partial s u now p = (r, s')"
  shows "cat_extends s s'"
    and "r = Validated vd \<Longrightarrow> category_exists s' (vd_category vd)"
proof -
  obtain cat s1 where rc: "run_category s u (p_category p) = (cat, s1)"
    by (cases "run_category s u (p_category p)")
  from run_category_extends [OF rc]
  have ext: "cat_extends s s1"
    and ex: "\<And>k. cat = Accepted (Some k) \<Longrightarrow> k \<in> set (map c_id (category_table s1))"
    by simp_all
  from assms rc have s': "s' = s1"
    by (cases cat) (auto simp: is_valid_def Let_def split: if_splits)
  show "cat_extends s s'" using ext s' by simp
  show "category_exists s' (vd_category vd)" if "r = Validated vd"
  proof -
    from assms rc that have "vd_category vd = accepted_or None cat"
      by (cases cat) (auto simp: is_valid_def Let_def split: if_splits)
    then show ?thesis using ex s'
      by (cases cat) (auto simp: accepted_or_def category_exists_def split: option.splits)
  qed
qed

section \<open>Preservation of the invariants\<close>

lemma wf_init: "wf init"
  by (simp add: wf_def note_ids_ok_def versions_attached_def numbered_def
      version_ids_ok_def categories_ok_def init_def versions_of_def)

lemma note_ids_ok_cong:
  "note_table s' = note_table s \<Longrightarrow> next_note_id s' = next_note_id s \<Longrightarrow>
     note_ids_ok s' = note_ids_ok s"
  by (simp add: note_ids_ok_def)

lemma versions_attached_cong:
  "note_table s' = note_table s \<Longrightarrow> version_table s' = version_table s \<Longrightarrow>
     versions_attached s' = versions_attached s"
  by (simp add: versions_attached_def)

lemma versions_of_cong:
  "version_table s' = version_table s \<Longrightarrow> versions_of s' nid = versions_of s nid"
  by (simp add: versions_of_def)

lemma numbered_cong: "version_table s' = version_table s \<Longrightarrow> numbered s' = numbered s"
  by (simp add: numbered_def versions_of_def)

lemma version_ids_ok_cong:
  "version_table s' = version_table s \<Longrightarrow> next_version_id s' = next_version_id s \<Longrightarrow>
     version_ids_ok s' = version_ids_ok s"
  by (simp add: version_ids_ok_def)

lemma category_exists_mono:
  "category_exists s c \<Longrightarrow>
     set (map c_id (category_table s)) \<subseteq> set (map c_id (category_table s')) \<Longrightarrow>
     category_exists s' c"
  by (cases c) (auto simp: category_exists_def)

lemma category_exists_cong:
  "category_table s' = category_table s \<Longrightarrow> category_exists s' c = category_exists s c"
  by (cases c) (simp_all add: category_exists_def)

lemma category_exists_update [simp]:
  "category_exists (s\<lparr>note_table := nt\<rparr>) c = category_exists s c"
  "category_exists (s\<lparr>version_table := vt\<rparr>) c = category_exists s c"
  "category_exists (s\<lparr>next_note_id := k\<rparr>) c = category_exists s c"
  "category_exists (s\<lparr>next_version_id := k\<rparr>) c = category_exists s c"
  "category_exists (s\<lparr>summarizer_calls := x\<rparr>) c = category_exists s c"
  by (cases c; simp add: category_exists_def)+

lemma categories_ok_mono:
  assumes "categories_ok s"
      and "note_table s' = note_table s" "version_table s' = version_table s"
      and "set (map c_id (category_table s)) \<subseteq> set (map c_id (category_table s'))"
  shows "categories_ok s'"
  using assms unfolding categories_ok_def
  by (metis category_exists_mono)

lemma cat_extendsD:
  assumes "cat_extends s s'"
  shows "note_table s' = note_table s" "version_table s' = version_table s"
    "next_note_id s' = next_note_id s" "next_version_id s' = next_version_id s"
    "summarizer_calls s' = summarizer_calls s"
    "set (map c_id (category_table s)) \<subseteq> set (map c_id (category_table s'))"
  using assms unfolding cat_extends_def by auto

lemma wf_cat_extends:
  assumes "wf s" "cat_extends s s'"
  shows "wf s'"
proof -
  note d = cat_extendsD [OF assms(2)]
  from assms(1) show ?thesis
    unfolding wf_def
    using note_ids_ok_cong [OF d(1) d(3)] versions_attached_cong [OF d(1) d(2)]
      numbered_cong [OF d(2)] version_ids_ok_cong [OF d(2) d(4)]
      categories_ok_mono [OF _ d(1) d(2) d(6)] d(3)
    by simp
qed

lemma wf_calls:
  assumes "wf s"
  shows "wf (s\<lparr>summarizer_calls := x\<rparr>)"
proof -
  let ?s = "s\<lparr>summarizer_calls := x\<rparr>"
  have d: "note_table ?s = note_table s" "version_table ?s = version_table s"
    "next_note_id ?s = next_note_id s" "next_version_id ?s = next_version_id s"
    "set (map c_id (category_table s)) \<subseteq> set (map c_id (category_table ?s))"
    by simp_all
  from assms show ?thesis
    unfolding wf_def
    using note_ids_ok_cong [OF d(1) d(3)] versions_attached_cong [OF d(1) d(2)]
      numbered_cong [OF d(2)] version_ids_ok_cong [OF d(2) d(4)]
      categories_ok_mono [OF _ d(1) d(2) d(5)] d(3)
    by simp
qed

lemma wf_add_note:
  assumes "wf s" "n_id n = next_note_id s" "category_exists s (n_category n)"
  shows "wf (s\<lparr>note_table := note_table s @ [n], next_note_id := Suc (next_note_id s)\<rparr>)"
    (is "wf ?s")
proof -
  from assms(1) have pos: "0 < next_note_id s" and ids: "note_ids_ok s"
    and att: "versions_attached s" and num: "numbered s" and vids: "version_ids_ok s"
    and cats: "categories_ok s"
    by (simp_all add: wf_def)
  have 1: "note_ids_ok ?s"
    using ids pos assms(2) unfolding note_ids_ok_def by (auto simp: less_Suc_eq)
  have 2: "versions_attached ?s"
    using att unfolding versions_attached_def by auto
  have 3: "numbered ?s" using num numbered_cong [of ?s s] by simp
  have 4: "version_ids_ok ?s" using vids version_ids_ok_cong [of ?s s] by simp
  have 5: "categories_ok ?s"
    using cats assms(3) unfolding categories_ok_def
    by auto
  from 1 2 3 4 5 show ?thesis by (simp add: wf_def)
qed

lemma wf_save_note:
  assumes "wf s" "category_exists s (n_category n)"
  shows "wf (save_note s n)" (is "wf ?s")
proof -
  from assms(1) have pos: "0 < next_note_id s" and ids: "note_ids_ok s"
    and att: "versions_attached s" and num: "numbered s" and vids: "version_ids_ok s"
    and cats: "categories_ok s"
    by (simp_all add: wf_def)
  have m: "map n_id (note_table ?s) = map n_id (note_table s)"
    by (simp add: save_note_def)
  have mem: "m \<in> set (note_table ?s) \<Longrightarrow> m = n \<or> m \<in> set (note_table s)" for m
    by (auto simp: save_note_def split: if_splits)
  have ce: "category_exists ?s c = category_exists s c" for c
    by (rule category_exists_cong) (simp add: save_note_def)
  have 1: "note_ids_ok ?s"
    unfolding note_ids_ok_def
  proof (intro conjI ballI)
    show "distinct (map n_id (note_table ?s))" using ids m by (simp add: note_ids_ok_def)
    fix k assume "k \<in> set (note_table ?s)"
    then have "n_id k \<in> set (map n_id (note_table ?s))" by simp
    then have "n_id k \<in> set (map n_id (note_table s))" using m by simp
    then obtain k' where "k' \<in> set (note_table s)" "n_id k' = n_id k" by auto
    then show "0 < n_id k" "n_id k < next_note_id ?s"
      using ids by (auto simp: note_ids_ok_def save_note_def)
  qed
  have 2: "versions_attached ?s"
    using att m unfolding versions_attached_def by (simp add: save_note_def)
  have 3: "numbered ?s" using num numbered_cong [of ?s s] by (simp add: save_note_def)
  have 4: "version_ids_ok ?s"
    using vids version_ids_ok_cong [of ?s s] by (simp add: save_note_def)
  have 5: "categories_ok ?s"
    unfolding categories_ok_def
  proof (intro conjI ballI)
    fix k assume "k \<in> set (note_table ?s)"
    from mem [OF this] show "category_exists ?s (n_category k)"
      using cats assms(2) by (auto simp: categories_ok_def ce)
  next
    fix v assume "v \<in> set (version_table ?s)"
    then show "category_exists ?s (v_category v)"
      using cats by (auto simp: categories_ok_def ce save_note_def)
  qed
  from pos 1 2 3 4 5 show ?thesis by (simp add: wf_def save_note_def)
qed

lemma versions_of_delete:
  "versions_of (delete_note s pk) nid = (if nid = pk then [] else versions_of s nid)"
  by (auto simp: delete_note_def versions_of_def intro: filter_cong)

lemma wf_delete_note:
  assumes "wf s"
  shows "wf (delete_note s pk)" (is "wf ?s")
proof -
  from assms(1) have pos: "0 < next_note_id s" and ids: "note_ids_ok s"
    and att: "versions_attached s" and num: "numbered s" and vids: "version_ids_ok s"
    and cats: "categories_ok s"
    by (simp_all add: wf_def)
  have 1: "note_ids_ok ?s"
    using ids unfolding note_ids_ok_def delete_note_def by (auto simp: distinct_map_filter)
  have 2: "versions_attached ?s"
    using att unfolding versions_attached_def delete_note_def by auto
  have 3: "numbered ?s"
    using num unfolding numbered_def versions_of_delete by simp
  have 4: "version_ids_ok ?s"
    using vids unfolding version_ids_ok_def delete_note_def
    by (auto simp: sorted_wrt_map intro: sorted_wrt_filter)
  have 5: "categories_ok ?s"
    using cats unfolding categories_ok_def
    by (auto simp: delete_note_def)
  from pos 1 2 3 4 5 show ?thesis by (simp add: wf_def delete_note_def)
qed


lemma NoteVersion_create_cases:
  "NoteVersion_create s now v0 =
     (if (v_note v0, v_version_number v0)
           \<in> set (map (\<lambda>w. (v_note w, v_version_number w)) (version_table s))
         \<or> \<not> category_exists s (v_category v0)
      then Inl IntegrityError
      else Inr (v0\<lparr>v_id := next_version_id s, v_created_at := now\<rparr>,
                s\<lparr>version_table :=
                     version_table s @ [v0\<lparr>v_id := next_version_id s, v_created_at := now\<rparr>],
                  next_version_id := Suc (next_version_id s)\<rparr>))"
  by (simp add: NoteVersion_create_def Let_def)

lemma wf_add_version:
  assumes "wf s" "v_note v \<in> set (map n_id (note_table s))"
    "v_version_number v = Suc (length (versions_of s (v_note v)))"
    "v_id v = next_version_id s" "category_exists s (v_category v)"
  shows "wf (s\<lparr>version_table := version_table s @ [v],
               next_version_id := Suc (next_version_id s)\<rparr>)" (is "wf ?s")
proof -
  from assms(1) have pos: "0 < next_note_id s" and ids: "note_ids_ok s"
    and att: "versions_attached s" and num: "numbered s" and vids: "version_ids_ok s"
    and cats: "categories_ok s"
    by (simp_all add: wf_def)
  have 1: "note_ids_ok ?s" using ids note_ids_ok_cong [of ?s s] by simp
  have 2: "versions_attached ?s"
    using att assms(2) unfolding versions_attached_def by auto
  have vo: "versions_of ?s nid = versions_of s nid @ (if v_note v = nid then [v] else [])"
    for nid by (simp add: versions_of_def)
  have 3: "numbered ?s"
    unfolding numbered_def
  proof
    fix nid
    show "map v_version_number (versions_of ?s nid)
            = map Suc [0..<length (versions_of ?s nid)]"
      using num [unfolded numbered_def, rule_format, of nid] assms(3)
      by (simp add: vo)
  qed
  have 4: "version_ids_ok ?s"
    using vids assms(4) unfolding version_ids_ok_def
    by (auto simp: sorted_wrt_append less_Suc_eq)
  have 5: "categories_ok ?s"
    using cats assms(5) unfolding categories_ok_def
    by auto
  from pos 1 2 3 4 5 show ?thesis by (simp add: wf_def)
qed

lemma NoteSerializer_create_effect:
  assumes "NoteSerializer_create s u now env vd = (n, s')"
  shows "\<exists>x. s' = (s\<lparr>summarizer_calls := x\<rparr>)
                  \<lparr>note_table := note_table s @ [n], next_note_id := Suc (next_note_id s)\<rparr>"
    and "n_id n = next_note_id s" and "n_category n = vd_category vd" and "n_owner n = u"
proof -
  let ?c = "case vd_content vd of None \<Rightarrow> [] | Some c \<Rightarrow> c"
  show "\<exists>x. s' = (s\<lparr>summarizer_calls := x\<rparr>)
                  \<lparr>note_table := note_table s @ [n], next_note_id := Suc (next_note_id s)\<rparr>"
  proof (cases "?c = []")
    case True
    with assms have "s' = s\<lparr>note_table := note_table s @ [n],
                              next_note_id := Suc (next_note_id s)\<rparr>"
      by (auto simp: NoteSerializer_create_def Let_def)
    then have "s' = (s\<lparr>summarizer_calls := summarizer_calls s\<rparr>)
                  \<lparr>note_table := note_table s @ [n], next_note_id := Suc (next_note_id s)\<rparr>"
      by simp
    then show ?thesis by blast
  next
    case False
    with assms have "s' = (s\<lparr>summarizer_calls := summarizer_calls s @ [?c]\<rparr>)
                  \<lparr>note_table := note_table s @ [n], next_note_id := Suc (next_note_id s)\<rparr>"
      by (auto simp: NoteSerializer_create_def Let_def get_openrouter_summary_def)
    then show ?thesis by blast
  qed
  show "n_id n = next_note_id s" "n_category n = vd_category vd" "n_owner n = u"
    using assms
    by (auto simp: NoteSerializer_create_def Let_def get_openrouter_summary_def
        split: if_splits)
qed

lemma wf_NoteSerializer_create:
  assumes "wf s" "category_exists s (vd_category vd)"
    "NoteSerializer_create s u now env vd = (n, s')"
  shows "wf s'"
proof -
  from NoteSerializer_create_effect [OF assms(3)] obtain x where
    s': "s' = (s\<lparr>summarizer_calls := x\<rparr>)
                  \<lparr>note_table := note_table s @ [n], next_note_id := Suc (next_note_id s)\<rparr>"
    and n: "n_id n = next_note_id s" "n_category n = vd_category vd" by blast
  have "wf ((s\<lparr>summarizer_calls := x\<rparr>)
            \<lparr>note_table := note_table (s\<lparr>summarizer_calls := x\<rparr>) @ [n],
             next_note_id := Suc (next_note_id (s\<lparr>summarizer_calls := x\<rparr>))\<rparr>)"
    by (rule wf_add_note) (use assms(1,2) n in \<open>simp_all add: wf_calls\<close>)
  then show ?thesis by (simp add: s')
qed

lemma wf_CreateNoteView_post:
  assumes "wf s"
  shows "wf (snd (CreateNoteView_post s u now env p))"
proof -
  obtain r s0 where v: "is_valid False s u now p = (r, s0)"
    by (cases "is_valid False s u now p")
  have wf0: "wf s0" using wf_cat_extends [OF assms is_valid_extends(1) [OF v]] .
  show ?thesis
  proof (cases r)
    case (Validated vd)
    obtain n s1 where c: "NoteSerializer_create s0 u now env vd = (n, s1)"
      by (cases "NoteSerializer_create s0 u now env vd")
    have "wf s1"
      using wf_NoteSerializer_create [OF wf0 is_valid_extends(2) [OF v Validated] c] .
    then show ?thesis by (simp add: CreateNoteView_post_def v Validated c)
  qed (simp_all add: CreateNoteView_post_def v wf0)
qed

lemma NoteSerializer_update_effect:
  assumes "NoteSerializer_update s now env inst vd = (n, s')"
  shows "\<exists>x. s' = save_note (s\<lparr>summarizer_calls := x\<rparr>) n"
    and "n_id n = n_id inst" and "n_owner n = n_owner inst"
    and "n_category n = (case vd_category vd of None \<Rightarrow> n_category inst | Some c \<Rightarrow> Some c)"
proof -
  show "\<exists>x. s' = save_note (s\<lparr>summarizer_calls := x\<rparr>) n"
  proof (cases "\<exists>c. vd_content vd = Some c \<and> c \<noteq> n_content inst")
    case True
    then obtain c where "vd_content vd = Some c" "c \<noteq> n_content inst" by blast
    with assms have "s' = save_note (s\<lparr>summarizer_calls := summarizer_calls s @ [c]\<rparr>) n"
      by (auto simp: NoteSerializer_update_def Let_def get_openrouter_summary_def)
    then show ?thesis by blast
  next
    case False
    with assms have "s' = save_note s n"
      by (cases "vd_content vd") (auto simp: NoteSerializer_update_def Let_def)
    then have "s' = save_note (s\<lparr>summarizer_calls := summarizer_calls s\<rparr>) n" by simp
    then show ?thesis by blast
  qed
  show "n_id n = n_id inst" "n_owner n = n_owner inst"
    "n_category n = (case vd_category vd of None \<Rightarrow> n_category inst | Some c \<Rightarrow> Some c)"
    using assms
    by (auto simp: NoteSerializer_update_def Let_def get_openrouter_summary_def
        split: option.splits if_splits)
qed

lemma get_note_SomeD:
  "get_note s pk u = Some n \<Longrightarrow> n \<in> set (note_table s) \<and> n_id n = pk \<and> n_owner n = u"
  unfolding get_note_def by (auto simp: find_Some_iff)

lemma wf_NoteDetailView_put:
  assumes "wf s"
  shows "wf (snd (NoteDetailView_put s u now env pk p))"
proof (cases "get_note s pk u")
  case None
  then show ?thesis using assms by (simp add: NoteDetailView_put_def)
next
  case (Some inst)
  obtain r s0 where v: "is_valid True s u now p = (r, s0)"
    by (cases "is_valid True s u now p")
  note ext = is_valid_extends(1) [OF v]
  have wf0: "wf s0" using wf_cat_extends [OF assms ext] .
  show ?thesis
  proof (cases r)
    case (Validated vd)
    obtain n s1 where c: "NoteSerializer_update s0 now env inst vd = (n, s1)"
      by (cases "NoteSerializer_update s0 now env inst vd")
    from NoteSerializer_update_effect [OF c] obtain x where
      s1: "s1 = save_note (s0\<lparr>summarizer_calls := x\<rparr>) n"
      and cat: "n_category n
                 = (case vd_category vd of None \<Rightarrow> n_category inst | Some c \<Rightarrow> Some c)"
      by blast
    have "inst \<in> set (note_table s0)"
      using get_note_SomeD [OF Some] cat_extendsD(1) [OF ext] by simp
    then have "category_exists s0 (n_category inst)"
      using wf0 by (simp add: wf_def categories_ok_def)
    then have "category_exists s0 (n_category n)"
      using is_valid_extends(2) [OF v Validated] cat
      by (cases "vd_category vd") simp_all
    then have "wf s1" unfolding s1
      by (intro wf_save_note wf_calls wf0) simp
    then show ?thesis by (simp add: NoteDetailView_put_def Some v Validated c)
  qed (simp_all add: NoteDetailView_put_def Some v wf0)
qed

lemma wf_NoteDetailView_delete:
  "wf s \<Longrightarrow> wf (snd (NoteDetailView_delete s u pk))"
  by (cases "get_note s pk u") (simp_all add: NoteDetailView_delete_def wf_delete_note)

lemma wf_delete_notes: "wf s \<Longrightarrow> wf (delete_notes s pks)"
  by (induction pks arbitrary: s) (simp_all add: wf_delete_note)

lemma versions_of_delete_notes:
  "versions_of (delete_notes s pks) nid = (if nid \<in> set pks then [] else versions_of s nid)"
  by (induction pks arbitrary: s) (auto simp: versions_of_delete)

lemma note_ids_delete_notes:
  "map n_id (note_table (delete_notes s pks)) = filter (\<lambda>i. i \<notin> set pks) (map n_id (note_table s))"
  "next_note_id (delete_notes s pks) = next_note_id s"
proof -
  have "map n_id (note_table (delete_notes s pks))
          = filter (\<lambda>i. i \<notin> set pks) (map n_id (note_table s))
        \<and> next_note_id (delete_notes s pks) = next_note_id s"
  proof (induction pks arbitrary: s)
    case Nil
    show ?case by simp
  next
    case (Cons pk pks)
    have "map n_id (note_table (delete_note s pk)) = filter (\<lambda>i. i \<noteq> pk) (map n_id (note_table s))"
      by (simp add: delete_note_def filter_map comp_def)
    moreover have "next_note_id (delete_note s pk) = next_note_id s"
      by (simp add: delete_note_def)
    ultimately show ?case using Cons.IH [of "delete_note s pk"]
      by (auto intro: filter_cong)
  qed
  then show "map n_id (note_table (delete_notes s pks))
          = filter (\<lambda>i. i \<notin> set pks) (map n_id (note_table s))"
    and "next_note_id (delete_notes s pks) = next_note_id s" by simp_all
qed

lemma wf_NoteCategorySearchView_delete:
  "wf s \<Longrightarrow> wf (snd (NoteCategorySearchView_delete s u category))"
  by (simp add: NoteCategorySearchView_delete_def Let_def wf_delete_notes)

lemma wf_NoteTagSearchView_delete:
  "wf s \<Longrightarrow> wf (snd (NoteTagSearchView_delete s u tag))"
  by (simp add: NoteTagSearchView_delete_def Let_def wf_delete_notes)

lemma NoteVersion_create_wf:
  assumes "wf s" "v_note v0 \<in> set (map n_id (note_table s))"
    "v_version_number v0 = Suc (length (versions_of s (v_note v0)))"
    "NoteVersion_create s now v0 = Inr (v, s')"
  shows "wf s'"
proof -
  from assms(4) have ok: "category_exists s (v_category v0)"
    and v: "v = v0\<lparr>v_id := next_version_id s, v_created_at := now\<rparr>"
    and s': "s' = s\<lparr>version_table := version_table s @ [v],
                    next_version_id := Suc (next_version_id s)\<rparr>"
    by (auto simp: NoteVersion_create_cases split: if_splits)
  show ?thesis unfolding s'
    by (rule wf_add_version) (use assms(1-3) ok in \<open>simp_all add: v\<close>)
qed


lemma wf_DraftView_post:
  assumes "wf s"
  shows "wf (snd (DraftView_post s u now note_id data))"
proof (cases "truthy note_id")
  case None
  then show ?thesis using assms by (simp add: DraftView_post_def)
next
  case (Some i)
  show ?thesis
  proof (cases "get_note s i u")
    case None
    then show ?thesis using assms Some by (simp add: DraftView_post_def)
  next
    case (Some n)
    let ?v0 = "\<lparr>v_id = 0, v_note = n_id n,
                v_title = dict_get (d_title data) (n_title n),
                v_content = dict_get (d_content data) (n_content n),
                v_tags = dict_get (d_tags data) (n_tags n),
                v_summary = dict_get (d_summary data) (n_summary n),
                v_category = dict_get (d_category_id data) (n_category n),
                v_reminder_date = dict_get (d_reminder_date data) (n_reminder_date n),
                v_is_favorite = dict_get (d_is_favorite data) (n_is_favorite n),
                v_version_number = length (versions_of s (n_id n)) + 1,
                v_created_at = now, v_is_draft = True\<rparr>"
    show ?thesis
    proof (cases "NoteVersion_create s now ?v0")
      case (Inl e)
      then show ?thesis
        using assms \<open>truthy note_id = Some i\<close> Some by (simp add: DraftView_post_def Let_def)
    next
      case (Inr r)
      obtain v s' where r: "r = (v, s')" by (cases r)
      have "wf s'"
        by (rule NoteVersion_create_wf [OF assms _ _ Inr [unfolded r]])
          (use get_note_SomeD [OF Some] in auto)
      then show ?thesis
        using \<open>truthy note_id = Some i\<close> Some Inr r by (simp add: DraftView_post_def Let_def)
    qed
  qed
qed

lemma note_by_id_SomeD:
  "note_by_id s pk = Some n \<Longrightarrow> n \<in> set (note_table s) \<and> n_id n = pk"
  unfolding note_by_id_def by (auto simp: find_Some_iff)

lemma get_version_SomeD:
  assumes "get_version s version_id note_id u = Some (v, n)"
  shows "v \<in> set (version_table s)" "version_id = Some (v_id v)" "v_note v = note_id"
    "n \<in> set (note_table s)" "n_id n = note_id" "n_owner n = u"
proof -
  from assms obtain i where i: "version_id = Some i"
    by (cases version_id) (simp_all add: get_version_def)
  from assms i obtain v' where
    f: "find (\<lambda>v. v_id v = i \<and> v_note v = note_id \<and> owned_by s (v_note v) u)
          (version_table s) = Some v'"
    by (auto simp: get_version_def split: option.splits)
  from assms i f have v': "v' = v" and nb: "note_by_id s (v_note v) = Some n"
    by (auto simp: get_version_def split: option.splits)
  from f v' have *: "v \<in> set (version_table s)" "v_id v = i" "v_note v = note_id"
    "owned_by s (v_note v) u"
    by (auto simp: find_Some_iff)
  show "v \<in> set (version_table s)" "version_id = Some (v_id v)" "v_note v = note_id"
    using * i by simp_all
  show "n \<in> set (note_table s)" "n_id n = note_id" "n_owner n = u"
    using note_by_id_SomeD [OF nb] * nb by (simp_all add: owned_by_def)
qed

lemma wf_VersionHistoryView_post:
  assumes "wf s"
  shows "wf (snd (VersionHistoryView_post s u now note_id version_id))"
proof (cases "get_version s version_id note_id u")
  case None
  then show ?thesis using assms by (simp add: VersionHistoryView_post_def)
next
  case (Some vn)
  obtain version note0 where vn: "vn = (version, note0)" by (cases vn)
  note d = get_version_SomeD [OF Some [unfolded vn]]
  let ?note = "note0\<lparr>n_title := v_title version, n_content := v_content version,
                     n_tags := v_tags version, n_summary := v_summary version,
                     n_category := v_category version,
                     n_reminder_date := v_reminder_date version,
                     n_is_favorite := v_is_favorite version, n_updated_at := now\<rparr>"
  let ?s1 = "save_note s ?note"
  let ?w0 = "\<lparr>v_id = 0, v_note = n_id ?note, v_title = n_title ?note,
              v_content = n_content ?note, v_tags = [], v_summary = [],
              v_category = None, v_reminder_date = None, v_is_favorite = False,
              v_version_number = length (versions_of ?s1 (n_id ?note)) + 1,
              v_created_at = now, v_is_draft = False\<rparr>"
  have "category_exists s (v_category version)"
    using assms d(1) by (simp add: wf_def categories_ok_def)
  then have wf1: "wf ?s1" by (intro wf_save_note assms) simp
  have ids: "map n_id (note_table ?s1) = map n_id (note_table s)"
    by (simp add: save_note_def)
  show ?thesis
  proof (cases "NoteVersion_create ?s1 now ?w0")
    case (Inl e)
    then show ?thesis using wf1 Some vn
      by (simp add: VersionHistoryView_post_def Let_def)
  next
    case (Inr r)
    obtain w s2 where r: "r = (w, s2)" by (cases r)
    have "wf s2"
    proof (rule NoteVersion_create_wf [OF wf1 _ _ Inr [unfolded r]])
      show "v_note ?w0 \<in> set (map n_id (note_table ?s1))"
        unfolding ids using d(4,5) by auto
      show "v_version_number ?w0 = Suc (length (versions_of ?s1 (v_note ?w0)))" by simp
    qed
    then show ?thesis using Some vn Inr r
      by (simp add: VersionHistoryView_post_def Let_def)
  qed
qed

lemma wf_handle: "wf s \<Longrightarrow> wf (snd (handle r s))"
  by (cases r)
    (simp_all add: wf_CreateNoteView_post wf_NoteDetailView_put wf_NoteDetailView_delete
      wf_NoteCategorySearchView_delete wf_NoteTagSearchView_delete
      wf_DraftView_post wf_VersionHistoryView_post)

lemma wf_run: "wf s \<Longrightarrow> wf (run rs s)"
  by (induction rs arbitrary: s) (simp_all add: wf_handle)

lemma wf_reachable: "wf (run rs init)"
  by (rule wf_run [OF wf_init])

section \<open>Updates through the serializer\<close>

lemma find_replace:
  assumes "find (\<lambda>m. n_id m = pk \<and> n_owner m = u) xs = Some inst"
    "n_id n = pk" "n_owner n = u"
  shows "find (\<lambda>m. n_id m = pk \<and> n_owner m = u)
           (map (\<lambda>m. if n_id m = n_id n then n else m) xs) = Some n"
  using assms by (induction xs) (auto split: if_splits)

lemma get_note_save_note:
  "get_note s pk u = Some inst \<Longrightarrow> n_id n = pk \<Longrightarrow> n_owner n = u \<Longrightarrow>
     get_note (save_note s n) pk u = Some n"
  using find_replace [of pk u "note_table s" inst n]
  by (simp add: get_note_def save_note_def)

lemma get_note_cong:
  "note_table s' = note_table s \<Longrightarrow> get_note s' pk u = get_note s pk u"
  by (simp add: get_note_def)

lemma is_valid_fields:
  assumes "is_valid partial s u now p = (Validated vd, s')"
  shows "vd_title vd = p_title p" "vd_tags vd = p_tags p" "vd_content vd = p_content p"
    "vd_summary vd = p_summary p" "vd_is_favorite vd = p_is_favorite p"
proof -
  obtain cat s1 where rc: "run_category s u (p_category p) = (cat, s1)"
    by (cases "run_category s u (p_category p)")
  show "vd_title vd = p_title p" "vd_tags vd = p_tags p" "vd_content vd = p_content p"
    "vd_summary vd = p_summary p" "vd_is_favorite vd = p_is_favorite p"
    using assms rc
    by (cases cat; auto simp: is_valid_def Let_def split: if_splits)+
qed

lemma NoteSerializer_update_summary:
  assumes "NoteSerializer_update s now env inst vd = (n, s')"
  shows "\<forall>c. vd_content vd = Some c \<and> c \<noteq> n_content inst \<longrightarrow>
            summarizer_calls s' = summarizer_calls s @ [c]
            \<and> n_summary n = openrouter_summary env c"
    and "vd_content vd = None \<or> vd_content vd = Some (n_content inst) \<Longrightarrow>
            summarizer_calls s' = summarizer_calls s
            \<and> n_summary n = (case vd_summary vd of None \<Rightarrow> n_summary inst | Some x \<Rightarrow> x)"
  using assms
  by (auto simp: NoteSerializer_update_def Let_def get_openrouter_summary_def save_note_def
      split: option.splits if_splits)

lemma NoteDetailView_put_valid:
  assumes g: "get_note s pk u = Some inst"
      and v: "is_valid True s u now p = (Validated vd, s0)"
  shows "\<exists>n s'. NoteDetailView_put s u now env pk p = (Response 200 (NoteData n), s')
           \<and> NoteSerializer_update s0 now env inst vd = (n, s')
           \<and> get_note s' pk u = Some n"
proof -
  obtain n s' where c: "NoteSerializer_update s0 now env inst vd = (n, s')"
    by (cases "NoteSerializer_update s0 now env inst vd")
  from NoteSerializer_update_effect [OF c] obtain x where
    s': "s' = save_note (s0\<lparr>summarizer_calls := x\<rparr>) n"
    and n: "n_id n = n_id inst" "n_owner n = n_owner inst" by blast
  note d = get_note_SomeD [OF g]
  have "get_note (s0\<lparr>summarizer_calls := x\<rparr>) pk u = Some inst"
    using g cat_extendsD(1) [OF is_valid_extends(1) [OF v]]
    by (simp add: get_note_def)
  then have "get_note s' pk u = Some n"
    unfolding s' by (rule get_note_save_note) (use n d in simp_all)
  then show ?thesis using g v c by (simp add: NoteDetailView_put_def)
qed

section \<open>How requests change the version table\<close>

lemma CreateNoteView_post_versions:
  "version_table (snd (CreateNoteView_post s u now env p)) = version_table s"
proof -
  obtain r s0 where v: "is_valid False s u now p = (r, s0)"
    by (cases "is_valid False s u now p")
  note e = cat_extendsD(2) [OF is_valid_extends(1) [OF v]]
  show ?thesis
  proof (cases r)
    case (Validated vd)
    obtain n s1 where c: "NoteSerializer_create s0 u now env vd = (n, s1)"
      by (cases "NoteSerializer_create s0 u now env vd")
    from NoteSerializer_create_effect(1) [OF c] have "version_table s1 = version_table s0"
      by auto
    then show ?thesis using e by (simp add: CreateNoteView_post_def v Validated c)
  qed (simp_all add: CreateNoteView_post_def v e)
qed

lemma NoteDetailView_put_versions:
  "version_table (snd (NoteDetailView_put s u now env pk p)) = version_table s"
proof (cases "get_note s pk u")
  case None
  then show ?thesis by (simp add: NoteDetailView_put_def)
next
  case (Some inst)
  obtain r s0 where v: "is_valid True s u now p = (r, s0)"
    by (cases "is_valid True s u now p")
  note e = cat_extendsD(2) [OF is_valid_extends(1) [OF v]]
  show ?thesis
  proof (cases r)
    case (Validated vd)
    obtain n s1 where c: "NoteSerializer_update s0 now env inst vd = (n, s1)"
      by (cases "NoteSerializer_update s0 now env inst vd")
    from NoteSerializer_update_effect(1) [OF c] have "version_table s1 = version_table s0"
      by (auto simp: save_note_def)
    then show ?thesis using e by (simp add: NoteDetailView_put_def Some v Validated c)
  qed (simp_all add: NoteDetailView_put_def Some v e)
qed

lemma NoteVersion_create_versions:
  "NoteVersion_create s now v0 = Inr (v, s') \<Longrightarrow>
     version_table s' = version_table s @ [v] \<and> v_note v = v_note v0"
  by (auto simp: NoteVersion_create_cases split: if_splits)

lemma DraftView_post_versions:
  "versions_of (snd (DraftView_post s u now note_id data)) nid =
     versions_of s nid @
       (if note_id = Some nid \<and> status_code (fst (DraftView_post s u now note_id data)) = 201
        then drop (length (version_table s))
               (version_table (snd (DraftView_post s u now note_id data)))
        else [])"
  and DraftView_post_versions_length:
    "length (version_table (snd (DraftView_post s u now note_id data)))
         = length (version_table s)
           + (if status_code (fst (DraftView_post s u now note_id data)) = 201 then 1 else 0)"
proof -
  have "versions_of (snd (DraftView_post s u now note_id data)) nid =
     versions_of s nid @
       (if note_id = Some nid \<and> status_code (fst (DraftView_post s u now note_id data)) = 201
        then drop (length (version_table s))
               (version_table (snd (DraftView_post s u now note_id data)))
        else [])
    \<and> length (version_table (snd (DraftView_post s u now note_id data)))
         = length (version_table s)
           + (if status_code (fst (DraftView_post s u now note_id data)) = 201 then 1 else 0)"
  proof (cases "truthy note_id")
    case None
    then show ?thesis by (simp add: DraftView_post_def)
  next
    case (Some i)
    then have ni: "note_id = Some i"
      by (cases note_id) (auto simp: truthy_def split: if_splits)
    show ?thesis
    proof (cases "get_note s i u")
      case None
      then show ?thesis using Some by (simp add: DraftView_post_def)
    next
      case (Some n)
      have id: "n_id n = i" using get_note_SomeD [OF Some] by simp
      let ?v0 = "\<lparr>v_id = 0, v_note = n_id n,
                v_title = dict_get (d_title data) (n_title n),
                v_content = dict_get (d_content data) (n_content n),
                v_tags = dict_get (d_tags data) (n_tags n),
                v_summary = dict_get (d_summary data) (n_summary n),
                v_category = dict_get (d_category_id data) (n_category n),
                v_reminder_date = dict_get (d_reminder_date data) (n_reminder_date n),
                v_is_favorite = dict_get (d_is_favorite data) (n_is_favorite n),
                v_version_number = length (versions_of s (n_id n)) + 1,
                v_created_at = now, v_is_draft = True\<rparr>"
      show ?thesis
      proof (cases "NoteVersion_create s now ?v0")
        case (Inl e)
        then show ?thesis
          using \<open>truthy note_id = Some i\<close> Some by (simp add: DraftView_post_def Let_def)
      next
        case (Inr r)
        obtain v s' where r: "r = (v, s')" by (cases r)
        from NoteVersion_create_versions [OF Inr [unfolded r]] id
        have "version_table s' = version_table s @ [v]" "v_note v = i" by simp_all
        then show ?thesis
          using \<open>truthy note_id = Some i\<close> Some Inr r ni
          by (auto simp: DraftView_post_def Let_def versions_of_def)
      qed
    qed
  qed
  then show "versions_of (snd (DraftView_post s u now note_id data)) nid =
     versions_of s nid @
       (if note_id = Some nid \<and> status_code (fst (DraftView_post s u now note_id data)) = 201
        then drop (length (version_table s))
               (version_table (snd (DraftView_post s u now note_id data)))
        else [])"
    and "length (version_table (snd (DraftView_post s u now note_id data)))
         = length (version_table s)
           + (if status_code (fst (DraftView_post s u now note_id data)) = 201 then 1 else 0)"
    by simp_all
qed

lemma VersionHistoryView_post_versions:
  "versions_of (snd (VersionHistoryView_post s u now note_id version_id)) nid =
     versions_of s nid @
       (if note_id = nid
           \<and> status_code (fst (VersionHistoryView_post s u now note_id version_id)) = 200
        then drop (length (version_table s))
               (version_table (snd (VersionHistoryView_post s u now note_id version_id)))
        else [])"
  and VersionHistoryView_post_versions_length:
    "length (version_table (snd (VersionHistoryView_post s u now note_id version_id)))
         = length (version_table s)
           + (if status_code (fst (VersionHistoryView_post s u now note_id version_id)) = 200
              then 1 else 0)"
proof -
  have "versions_of (snd (VersionHistoryView_post s u now note_id version_id)) nid =
     versions_of s nid @
       (if note_id = nid
           \<and> status_code (fst (VersionHistoryView_post s u now note_id version_id)) = 200
        then drop (length (version_table s))
               (version_table (snd (VersionHistoryView_post s u now note_id version_id)))
        else [])
     \<and> length (version_table (snd (VersionHistoryView_post s u now note_id version_id)))
         = length (version_table s)
           + (if status_code (fst (VersionHistoryView_post s u now note_id version_id)) = 200
              then 1 else 0)"
  proof (cases "get_version s version_id note_id u")
    case None
    then show ?thesis by (simp add: VersionHistoryView_post_def)
  next
    case (Some vn)
    obtain version note0 where vn: "vn = (version, note0)" by (cases vn)
    note d = get_version_SomeD [OF Some [unfolded vn]]
    let ?note = "note0\<lparr>n_title := v_title version, n_content := v_content version,
                     n_tags := v_tags version, n_summary := v_summary version,
                     n_category := v_category version,
                     n_reminder_date := v_reminder_date version,
                     n_is_favorite := v_is_favorite version, n_updated_at := now\<rparr>"
    let ?s1 = "save_note s ?note"
    let ?w0 = "\<lparr>v_id = 0, v_note = n_id ?note, v_title = n_title ?note,
              v_content = n_content ?note, v_tags = [], v_summary = [],
              v_category = None, v_reminder_date = None, v_is_favorite = False,
              v_version_number = length (versions_of ?s1 (n_id ?note)) + 1,
              v_created_at = now, v_is_draft = False\<rparr>"
    have vt: "version_table ?s1 = version_table s" by (simp add: save_note_def)
    show ?thesis
    proof (cases "NoteVersion_create ?s1 now ?w0")
      case (Inl e)
      then show ?thesis using Some vn vt
        by (simp add: VersionHistoryView_post_def Let_def versions_of_def)
    next
      case (Inr r)
      obtain w s2 where r: "r = (w, s2)" by (cases r)
      from NoteVersion_create_versions [OF Inr [unfolded r]] d(5) vt
      have "version_table s2 = version_table s @ [w]" "v_note w = note_id" by simp_all
      then show ?thesis using Some vn Inr r
        by (auto simp: VersionHistoryView_post_def Let_def versions_of_def)
    qed
  qed
  then show "versions_of (snd (VersionHistoryView_post s u now note_id version_id)) nid =
     versions_of s nid @
       (if note_id = nid
           \<and> status_code (fst (VersionHistoryView_post s u now note_id version_id)) = 200
        then drop (length (version_table s))
               (version_table (snd (VersionHistoryView_post s u now note_id version_id)))
        else [])"
    and "length (version_table (snd (VersionHistoryView_post s u now note_id version_id)))
         = length (version_table s)
           + (if status_code (fst (VersionHistoryView_post s u now note_id version_id)) = 200
              then 1 else 0)"
    by simp_all
qed

section \<open>The number of versions of a note\<close>

lemma handle_versions_length:
  "length (versions_of (snd (handle r s)) nid) =
     (if nid \<in> set (deleted_ids r s) then 0
      else length (versions_of s nid)
           + (if draft_saved nid r s then 1 else 0) + (if restored nid r s then 1 else 0))"
proof (cases r)
  case (CreateNote u now env p)
  then show ?thesis
    by (simp add: versions_of_cong [OF CreateNoteView_post_versions] draft_saved_def
        restored_def deleted_ids_def)
next
  case (UpdateNote u now env pk p)
  then show ?thesis
    by (simp add: versions_of_cong [OF NoteDetailView_put_versions] draft_saved_def
        restored_def deleted_ids_def)
next
  case (DeleteNote u pk)
  show ?thesis
  proof (cases "get_note s pk u")
    case None
    then show ?thesis using DeleteNote
      by (auto simp: NoteDetailView_delete_def draft_saved_def restored_def deleted_ids_def)
  next
    case (Some n)
    then have "n_id n = pk" using get_note_SomeD by blast
    then show ?thesis using DeleteNote Some
      by (auto simp: NoteDetailView_delete_def draft_saved_def restored_def
          versions_of_delete deleted_ids_def)
  qed
next
  case (DeleteByCategory u category)
  then show ?thesis
    by (auto simp: NoteCategorySearchView_delete_def Let_def draft_saved_def restored_def
        versions_of_delete_notes deleted_ids_def filter_empty_conv)
next
  case (DeleteByTag u tag)
  then show ?thesis
    by (auto simp: NoteTagSearchView_delete_def Let_def draft_saved_def restored_def
        versions_of_delete_notes deleted_ids_def filter_empty_conv)
next
  case (SaveDraft u now note_id data)
  have "length (drop (length (version_table s))
               (version_table (snd (DraftView_post s u now note_id data)))) =
         (if status_code (fst (DraftView_post s u now note_id data)) = 201 then 1 else 0)"
    using DraftView_post_versions_length [of s u now note_id data] by simp
  then show ?thesis using SaveDraft DraftView_post_versions [of s u now note_id data nid]
    by (auto simp: draft_saved_def restored_def deleted_ids_def)
next
  case (RestoreVersion u now note_id version_id)
  have "length (drop (length (version_table s))
               (version_table (snd (VersionHistoryView_post s u now note_id version_id)))) =
         (if status_code (fst (VersionHistoryView_post s u now note_id version_id)) = 200
          then 1 else 0)"
    using VersionHistoryView_post_versions_length [of s u now note_id version_id] by simp
  then show ?thesis
    using RestoreVersion VersionHistoryView_post_versions [of s u now note_id version_id nid]
    by (auto simp: draft_saved_def restored_def deleted_ids_def)
qed


lemma note_by_id_None: "note_by_id s nid = None \<longleftrightarrow> nid \<notin> set (map n_id (note_table s))"
  by (auto simp: note_by_id_def find_None_iff)

lemma handle_note_ids:
  "set (map n_id (note_table (snd (handle r s))))
     \<subseteq> insert (next_note_id s) (set (map n_id (note_table s)))
   \<and> next_note_id s \<le> next_note_id (snd (handle r s))"
proof (cases r)
  case (CreateNote u now env p)
  obtain v s0 where v: "is_valid False s u now p = (v, s0)"
    by (cases "is_valid False s u now p")
  note e = cat_extendsD(1,3) [OF is_valid_extends(1) [OF v]]
  show ?thesis
  proof (cases v)
    case (Validated vd)
    obtain n s1 where c: "NoteSerializer_create s0 u now env vd = (n, s1)"
      by (cases "NoteSerializer_create s0 u now env vd")
    from NoteSerializer_create_effect [OF c]
    have "note_table s1 = note_table s0 @ [n]" "next_note_id s1 = Suc (next_note_id s0)"
      "n_id n = next_note_id s0" by auto
    then show ?thesis using e CreateNote
      by (auto simp: CreateNoteView_post_def v Validated c)
  qed (use e CreateNote in \<open>auto simp: CreateNoteView_post_def v\<close>)
next
  case (UpdateNote u now env pk p)
  show ?thesis
  proof (cases "get_note s pk u")
    case None
    then show ?thesis using UpdateNote by (auto simp: NoteDetailView_put_def)
  next
    case (Some inst)
    obtain v s0 where v: "is_valid True s u now p = (v, s0)"
      by (cases "is_valid True s u now p")
    note e = cat_extendsD(1,3) [OF is_valid_extends(1) [OF v]]
    show ?thesis
    proof (cases v)
      case (Validated vd)
      obtain n s1 where c: "NoteSerializer_update s0 now env inst vd = (n, s1)"
        by (cases "NoteSerializer_update s0 now env inst vd")
      from NoteSerializer_update_effect(1) [OF c]
      have "map n_id (note_table s1) = map n_id (note_table s0)"
        "next_note_id s1 = next_note_id s0"
        by (auto simp: save_note_def)
      then show ?thesis using e UpdateNote Some
        by (auto simp: NoteDetailView_put_def v Validated c simp flip: set_map)
    qed (use e UpdateNote Some in \<open>auto simp: NoteDetailView_put_def v\<close>)
  qed
next
  case (DeleteNote u pk)
  then show ?thesis
    by (cases "get_note s pk u") (auto simp: NoteDetailView_delete_def delete_note_def)
next
  case (DeleteByCategory u category)
  then show ?thesis
    by (auto simp: NoteCategorySearchView_delete_def Let_def note_ids_delete_notes
        simp flip: set_map)
next
  case (DeleteByTag u tag)
  then show ?thesis
    by (auto simp: NoteTagSearchView_delete_def Let_def note_ids_delete_notes
        simp flip: set_map)
next
  case (SaveDraft u now note_id data)
  have "note_table (snd (DraftView_post s u now note_id data)) = note_table s
    \<and> next_note_id (snd (DraftView_post s u now note_id data)) = next_note_id s"
    by (auto simp: DraftView_post_def NoteVersion_create_cases Let_def
        split: option.splits if_splits)
  then show ?thesis using SaveDraft by auto
next
  case (RestoreVersion u now note_id version_id)
  have "map n_id (note_table (snd (VersionHistoryView_post s u now note_id version_id)))
          = map n_id (note_table s)
    \<and> next_note_id (snd (VersionHistoryView_post s u now note_id version_id)) = next_note_id s"
    by (auto simp: VersionHistoryView_post_def NoteVersion_create_cases Let_def save_note_def
        split: option.splits if_splits)
  then show ?thesis using RestoreVersion by (auto simp flip: set_map)
qed

lemma run_absent:
  "nid < next_note_id s \<Longrightarrow> note_by_id s nid = None \<Longrightarrow> note_by_id (run rs s) nid = None"
proof (induction rs arbitrary: s)
  case Nil
  then show ?case by simp
next
  case (Cons r rs)
  from handle_note_ids [of r s] Cons.prems
  have "nid < next_note_id (snd (handle r s))" "note_by_id (snd (handle r s)) nid = None"
    unfolding note_by_id_None by auto
  from Cons.IH [OF this] show ?case by simp
qed

lemma deleted_ids_gone:
  assumes "nid \<in> set (deleted_ids r s)"
  shows "nid \<in> set (map n_id (note_table s))" "note_by_id (snd (handle r s)) nid = None"
proof -
  have "nid \<in> set (map n_id (note_table s)) \<and> note_by_id (snd (handle r s)) nid = None"
  proof (cases r)
    case (DeleteNote u pk)
    with assms obtain n where g: "get_note s pk u = Some n" and n: "nid = n_id n"
      by (cases "get_note s pk u") (auto simp: deleted_ids_def)
    note d = get_note_SomeD [OF g]
    have "note_by_id (delete_note s pk) pk = None"
      unfolding note_by_id_None by (auto simp: delete_note_def)
    then show ?thesis using DeleteNote g d n by (auto simp: NoteDetailView_delete_def)
  next
    case (DeleteByCategory u category)
    let ?ids = "map n_id (filter (category_matches s u category) (note_table s))"
    from assms DeleteByCategory have m: "nid \<in> set ?ids" by (simp add: deleted_ids_def)
    then have ne: "filter (category_matches s u category) (note_table s) \<noteq> []"
      by (auto simp: filter_empty_conv)
    have "note_by_id (delete_notes s ?ids) nid = None"
      unfolding note_by_id_None note_ids_delete_notes using m by simp
    then show ?thesis using DeleteByCategory m ne
      by (auto simp: NoteCategorySearchView_delete_def Let_def)
  next
    case (DeleteByTag u tag)
    let ?ids = "map n_id (filter (tag_matches u tag) (note_table s))"
    from assms DeleteByTag have m: "nid \<in> set ?ids" by (simp add: deleted_ids_def)
    then have ne: "filter (tag_matches u tag) (note_table s) \<noteq> []"
      by (auto simp: filter_empty_conv)
    have "note_by_id (delete_notes s ?ids) nid = None"
      unfolding note_by_id_None note_ids_delete_notes using m by simp
    then show ?thesis using DeleteByTag m ne
      by (auto simp: NoteTagSearchView_delete_def Let_def)
  qed (use assms in \<open>simp_all add: deleted_ids_def\<close>)
  then show "nid \<in> set (map n_id (note_table s))" "note_by_id (snd (handle r s)) nid = None"
    by simp_all
qed

lemma run_versions_length:
  assumes "wf s" "note_by_id (run rs s) nid \<noteq> None"
  shows "length (versions_of (run rs s) nid)
           = length (versions_of s nid) + count_along (draft_saved nid) rs s
             + count_along (restored nid) rs s"
  using assms
proof (induction rs arbitrary: s)
  case Nil
  then show ?case by simp
next
  case (Cons r rs)
  let ?s1 = "snd (handle r s)"
  have wf1: "wf ?s1" using wf_handle [OF Cons.prems(1)] .
  have ex: "note_by_id (run rs ?s1) nid \<noteq> None" using Cons.prems(2) by simp
  have nd: "nid \<notin> set (deleted_ids r s)"
  proof
    assume d: "nid \<in> set (deleted_ids r s)"
    from deleted_ids_gone [OF d] have "nid \<in> set (map n_id (note_table s))"
      and gone: "note_by_id ?s1 nid = None" by simp_all
    then have "nid < next_note_id s"
      using Cons.prems(1) by (auto simp: wf_def note_ids_ok_def)
    then have "nid < next_note_id ?s1" using handle_note_ids [of r s] by simp
    from run_absent [OF this gone] ex show False by simp
  qed
  have "length (versions_of ?s1 nid)
          = length (versions_of s nid)
            + (if draft_saved nid r s then 1 else 0) + (if restored nid r s then 1 else 0)"
    by (subst handle_versions_length) (simp only: nd if_False)
  with Cons.IH [OF wf1 ex] show ?case by simp
qed

section \<open>Version numbers\<close>

lemma distinct_pairs:
  assumes "\<And>k. distinct (map g (filter (\<lambda>v. f v = k) xs))"
  shows "distinct (map (\<lambda>v. (f v, g v)) xs)"
  using assms
proof (induction xs)
  case Nil
  show ?case by simp
next
  case (Cons x xs)
  have tl: "distinct (map g (filter (\<lambda>v. f v = k) xs))" for k
    using Cons.prems [of k] by (cases "f x = k") simp_all
  have "(f x, g x) \<notin> set (map (\<lambda>v. (f v, g v)) xs)"
  proof
    assume "(f x, g x) \<in> set (map (\<lambda>v. (f v, g v)) xs)"
    then obtain y where y: "y \<in> set xs" "f y = f x" "g y = g x" by auto
    then have "y \<in> set (filter (\<lambda>v. f v = f x) xs)" by simp
    then have "g y \<in> g ` set (filter (\<lambda>v. f v = f x) xs)" by (rule imageI)
    then have "g x \<in> set (map g (filter (\<lambda>v. f v = f x) xs))" using y(3) by simp
    with Cons.prems [of "f x"] show False by simp
  qed
  with Cons.IH [OF tl] show ?case by simp
qed

lemma numbered_distinct: "numbered s \<Longrightarrow> distinct (map v_version_number (versions_of s k))"
  by (simp add: numbered_def distinct_map)

lemma numbered_increasing:
  assumes "\<And>k. map g (filter (\<lambda>v. f v = k) xs)
                 = map Suc [0..<length (filter (\<lambda>v. f v = k) xs)]"
  shows "sorted_wrt (\<lambda>a b. f a = f b \<longrightarrow> g a < g b) xs"
  using assms
proof (induction xs rule: rev_induct)
  case Nil
  show ?case by simp
next
  case (snoc x xs)
  have init: "map g (filter (\<lambda>v. f v = k) xs)
                 = map Suc [0..<length (filter (\<lambda>v. f v = k) xs)]" for k
    using snoc.prems [of k] by (cases "f x = k") simp_all
  have last: "g x = Suc (length (filter (\<lambda>v. f v = f x) xs))"
    using snoc.prems [of "f x"] by simp
  have "g a < g x" if "a \<in> set xs" "f a = f x" for a
  proof -
    from that have "a \<in> set (filter (\<lambda>v. f v = f x) xs)" by simp
    then have "g a \<in> g ` set (filter (\<lambda>v. f v = f x) xs)" by (rule imageI)
    then have "g a \<in> set (map g (filter (\<lambda>v. f v = f x) xs))" by simp
    then have "g a \<in> set (map Suc [0..<length (filter (\<lambda>v. f v = f x) xs)])"
      using init [of "f x"] by metis
    then show ?thesis using last by auto
  qed
  with snoc.IH [OF init] show ?case by (simp add: sorted_wrt_append)
qed

lemma sorted_wrt_both:
  "sorted_wrt P xs \<Longrightarrow> sorted_wrt Q xs \<Longrightarrow> sorted_wrt (\<lambda>a b. P a b \<and> Q a b) xs"
  by (induction xs) auto

lemma sorted_wrt_pair:
  "sorted_wrt P xs \<Longrightarrow> a \<in> set xs \<Longrightarrow> b \<in> set xs \<Longrightarrow> a = b \<or> P a b \<or> P b a"
  by (induction xs) auto

section \<open>Restoring a version\<close>

text \<open>
  Claim C1, at a failing input. A note is created with a tag, a category, a reminder date
  and a summary; a draft of it is saved (version 1, which copies all fields); version 1
  is restored. The live note then carries the fields of version 1, and the new version
  has number 2 and the title and content of version 1, but its tags, summary, category
  and reminder date are the model defaults and not those of version 1.
\<close>

theorem restore_drops_fields:
  "map v_version_number (version_table restore_example) = [1, 2]
   \<and> map v_title (version_table restore_example) = [''plan'', ''plan'']
   \<and> map v_content (version_table restore_example) = [''text'', ''text'']
   \<and> map v_tags (version_table restore_example) = [[''x''], []]
   \<and> map v_summary (version_table restore_example)
       = [''Summary unavailable: OPENROUTER_API_KEY not set in .env'', []]
   \<and> map v_category (version_table restore_example) = [Some 1, None]
   \<and> map v_reminder_date (version_table restore_example) = [Some 100, None]
   \<and> map n_tags (note_table restore_example) = [[''x'']]
   \<and> map n_category (note_table restore_example) = [Some 1]
   \<and> map n_reminder_date (note_table restore_example) = [Some 100]"
  by code_simp

section \<open>Reminder buckets\<close>

text \<open>
  Claim C2. For every owner and reference date, each of the owner's notes with a reminder
  date lies in exactly one bucket: in \<open>todays\<close> iff the date is the reference date, in
  \<open>tomorrows\<close> iff it is the day after, in \<open>overdues\<close> iff it is earlier, in
  \<open>scheduleds\<close> iff it is later than the day after. Notes without a reminder date and
  notes of other owners are in no bucket: the buckets are pairwise disjoint, their union
  is the set of the owner's notes with a reminder date, and no row is listed twice.
  This holds whatever order the database returns the rows in.
\<close>

theorem classify_partition:
  assumes ob: "orders_by reminder_order ob"
      and c: "classify ob s u today = (todays, tomorrows, overdues, scheduleds)"
  shows "(\<forall>n. (n \<in> set todays \<longleftrightarrow>
                 n \<in> set (note_table s) \<and> n_owner n = u \<and> n_reminder_date n = Some today)
            \<and> (n \<in> set tomorrows \<longleftrightarrow>
                 n \<in> set (note_table s) \<and> n_owner n = u \<and> n_reminder_date n = Some (today + 1))
            \<and> (n \<in> set overdues \<longleftrightarrow>
                 n \<in> set (note_table s) \<and> n_owner n = u
                   \<and> (\<exists>d. n_reminder_date n = Some d \<and> d < today))
            \<and> (n \<in> set scheduleds \<longleftrightarrow>
                 n \<in> set (note_table s) \<and> n_owner n = u
                   \<and> (\<exists>d. n_reminder_date n = Some d \<and> d > today + 1)))
       \<and> set todays \<inter> set tomorrows = {} \<and> set todays \<inter> set overdues = {}
       \<and> set todays \<inter> set scheduleds = {} \<and> set tomorrows \<inter> set overdues = {}
       \<and> set tomorrows \<inter> set scheduleds = {} \<and> set overdues \<inter> set scheduleds = {}
       \<and> set todays \<union> set tomorrows \<union> set overdues \<union> set scheduleds
           = {n \<in> set (note_table s). n_owner n = u \<and> n_reminder_date n \<noteq> None}
       \<and> (distinct (note_table s) \<longrightarrow>
             distinct todays \<and> distinct tomorrows \<and> distinct overdues \<and> distinct scheduleds)"
proof -
  note st = orders_by_set [OF ob] and di = orders_by_distinct [OF ob]
  from c have t: "todays = ob (filter (\<lambda>n. n_reminder_date n = Some today) (notes_with_reminders s u))"
    and m: "tomorrows = ob (filter (\<lambda>n. n_reminder_date n = Some (today + 1)) (notes_with_reminders s u))"
    and o: "overdues = ob (filter (\<lambda>n. case n_reminder_date n of None \<Rightarrow> False | Some d \<Rightarrow> d < today) (notes_with_reminders s u))"
    and sc: "scheduleds = ob (filter (\<lambda>n. case n_reminder_date n of None \<Rightarrow> False | Some d \<Rightarrow> d > today + 1) (notes_with_reminders s u))"
    by (simp_all add: classify_def Let_def)
  have mem: "\<forall>n. (n \<in> set todays \<longleftrightarrow>
                 n \<in> set (note_table s) \<and> n_owner n = u \<and> n_reminder_date n = Some today)
            \<and> (n \<in> set tomorrows \<longleftrightarrow>
                 n \<in> set (note_table s) \<and> n_owner n = u \<and> n_reminder_date n = Some (today + 1))
            \<and> (n \<in> set overdues \<longleftrightarrow>
                 n \<in> set (note_table s) \<and> n_owner n = u
                   \<and> (\<exists>d. n_reminder_date n = Some d \<and> d < today))
            \<and> (n \<in> set scheduleds \<longleftrightarrow>
                 n \<in> set (note_table s) \<and> n_owner n = u
                   \<and> (\<exists>d. n_reminder_date n = Some d \<and> d > today + 1))"
    unfolding t m o sc st notes_with_reminders_def
    by (auto split: option.splits)
  have dis: "set todays \<inter> set tomorrows = {} \<and> set todays \<inter> set overdues = {}
       \<and> set todays \<inter> set scheduleds = {} \<and> set tomorrows \<inter> set overdues = {}
       \<and> set tomorrows \<inter> set scheduleds = {} \<and> set overdues \<inter> set scheduleds = {}"
    using mem by (intro conjI; fastforce)
  have un: "set todays \<union> set tomorrows \<union> set overdues \<union> set scheduleds
           = {n \<in> set (note_table s). n_owner n = u \<and> n_reminder_date n \<noteq> None}"
  proof (rule set_eqI)
    fix n
    show "n \<in> set todays \<union> set tomorrows \<union> set overdues \<union> set scheduleds
            \<longleftrightarrow> n \<in> {n \<in> set (note_table s). n_owner n = u \<and> n_reminder_date n \<noteq> None}"
      using mem [rule_format, of n] by (cases "n_reminder_date n") (auto; linarith)+
  qed
  have d: "distinct (note_table s) \<longrightarrow>
             distinct todays \<and> distinct tomorrows \<and> distinct overdues \<and> distinct scheduleds"
    unfolding t m o sc di notes_with_reminders_def by simp
  from mem dis un d show ?thesis by blast
qed

theorem classify_partition_witness:
  "orders_by reminder_order (sort_by reminder_order)
   \<and> map n_id (fst reminder_buckets) = [2]
   \<and> map n_id (fst (snd reminder_buckets)) = [3]
   \<and> map n_id (fst (snd (snd reminder_buckets))) = [1]
   \<and> map n_id (snd (snd (snd reminder_buckets))) = [4]
   \<and> set (fst reminder_buckets) \<union> set (fst (snd reminder_buckets))
        \<union> set (fst (snd (snd reminder_buckets))) \<union> set (snd (snd (snd reminder_buckets)))
       = {n \<in> set (note_table reminder_example). n_owner n = 1 \<and> n_reminder_date n \<noteq> None}"
proof -
  have c: "classify (sort_by reminder_order) reminder_example 1 100
             = (fst reminder_buckets, fst (snd reminder_buckets),
                fst (snd (snd reminder_buckets)), snd (snd (snd reminder_buckets)))"
    by (simp add: reminder_buckets_def)
  have ids: "map n_id (fst reminder_buckets) = [2]"
    "map n_id (fst (snd reminder_buckets)) = [3]"
    "map n_id (fst (snd (snd reminder_buckets))) = [1]"
    "map n_id (snd (snd (snd reminder_buckets))) = [4]"
    by code_simp+
  from classify_partition [OF orders_by_reminder_order c] ids orders_by_reminder_order
  show ?thesis by blast
qed

section \<open>Saving a draft\<close>






text \<open>
  Claim C4, as the code has it. For every sequence of requests from the empty database
  and every note that is stored at its end, the number of stored versions of the note
  is the number of successful draft saves plus the number of successful restores on it.
  Creating a note adds no version row, and neither does updating one, whether or not
  the content changes.
\<close>

theorem version_count:
  "(note_by_id (run rs init) nid \<noteq> None \<longrightarrow>
      length (versions_of (run rs init) nid)
        = count_along (draft_saved nid) rs init + count_along (restored nid) rs init)
   \<and> version_table (snd (CreateNoteView_post s u now env p)) = version_table s
   \<and> version_table (snd (NoteDetailView_put s u now env pk p)) = version_table s"
proof (intro conjI impI)
  assume "note_by_id (run rs init) nid \<noteq> None"
  from run_versions_length [OF wf_init this]
  show "length (versions_of (run rs init) nid)
        = count_along (draft_saved nid) rs init + count_along (restored nid) rs init"
    by (simp add: versions_of_def init_def)
qed (simp_all add: CreateNoteView_post_versions NoteDetailView_put_versions)

theorem version_count_witness:
  "note_by_id (run restore_requests init) 1 \<noteq> None
   \<and> count_along (draft_saved 1) restore_requests init = 1
   \<and> count_along (restored 1) restore_requests init = 1
   \<and> length (versions_of (run restore_requests init) 1) = 2"
proof -
  have ev: "note_by_id (run restore_requests init) 1 \<noteq> None"
    "count_along (draft_saved 1) restore_requests init = 1"
    "count_along (restored 1) restore_requests init = 1"
    by code_simp+
  from version_count [of restore_requests 1] ev show ?thesis by simp
qed

theorem version_count_counterexample:
  "note_by_id (run edit_requests init) 1 \<noteq> None
   \<and> map n_content (note_table (run edit_requests init)) = [''other text'']
   \<and> spec_version_count 1 edit_requests init = 1
   \<and> length (versions_of (run edit_requests init) 1) = 0"
  by code_simp

section \<open>Summarizer failures\<close>

lemma placeholder_openrouter_summary:
  "summarizer_failed env \<Longrightarrow> placeholder (openrouter_summary env c)"
  by (cases "outcome env")
    (auto simp: summarizer_failed_def placeholder_def openrouter_summary_def)

lemma NoteSerializer_create_summary:
  assumes "NoteSerializer_create s u now env vd = (n, s')" "vd_content vd = Some c"
  shows "n_content n = c" "c \<noteq> [] \<Longrightarrow> n_summary n = openrouter_summary env c"
    "note_table s' = note_table s @ [n]"
  using assms
  by (auto simp: NoteSerializer_create_def Let_def get_openrouter_summary_def
      split: if_splits)

lemma NoteSerializer_update_content:
  assumes "NoteSerializer_update s now env inst vd = (n, s')" "vd_content vd = Some c"
  shows "n_content n = c"
  using assms
  by (auto simp: NoteSerializer_update_def Let_def get_openrouter_summary_def
      split: if_splits)

text \<open>
  Claim C5. When the summarizer fails (no credential, or the HTTP exchange raises), a
  create or update request that passes validation and carries non-empty content is
  answered with success (201, 200), the note is stored with that content, and wherever
  the summarizer is called (always on create, on update when the content differs from
  the stored one) the stored summary is the placeholder text of the failure.
\<close>

theorem summarizer_failure_placeholder:
  assumes "summarizer_failed env" and "p_content p = Some c" and "c \<noteq> []"
  shows "(\<forall>vd s0. is_valid False s u now p = (Validated vd, s0) \<longrightarrow>
            (\<exists>n s'. CreateNoteView_post s u now env p = (Response 201 (NoteData n), s')
               \<and> note_table s' = note_table s @ [n] \<and> n_content n = c
               \<and> n_summary n = openrouter_summary env c \<and> placeholder (n_summary n)))
       \<and> (\<forall>inst vd s0. get_note s pk u = Some inst
                \<and> is_valid True s u now p = (Validated vd, s0) \<longrightarrow>
            (\<exists>n s'. NoteDetailView_put s u now env pk p = (Response 200 (NoteData n), s')
               \<and> get_note s' pk u = Some n \<and> n_content n = c
               \<and> (c \<noteq> n_content inst \<longrightarrow>
                     n_summary n = openrouter_summary env c \<and> placeholder (n_summary n))))"
proof (intro conjI allI impI)
  fix vd s0
  assume v: "is_valid False s u now p = (Validated vd, s0)"
  obtain n s' where cr: "NoteSerializer_create s0 u now env vd = (n, s')"
    by (cases "NoteSerializer_create s0 u now env vd")
  have vc: "vd_content vd = Some c" using is_valid_fields(3) [OF v] assms(2) by simp
  note cs = NoteSerializer_create_summary [OF cr vc]
  have nt: "note_table s0 = note_table s"
    using cat_extendsD(1) [OF is_valid_extends(1) [OF v]] .
  have "CreateNoteView_post s u now env p = (Response 201 (NoteData n), s')"
    by (simp add: CreateNoteView_post_def v cr)
  moreover have "n_summary n = openrouter_summary env c" using cs(2) assms(3) by simp
  moreover have "placeholder (openrouter_summary env c)"
    using placeholder_openrouter_summary [OF assms(1)] .
  ultimately show "\<exists>n s'. CreateNoteView_post s u now env p = (Response 201 (NoteData n), s')
               \<and> note_table s' = note_table s @ [n] \<and> n_content n = c
               \<and> n_summary n = openrouter_summary env c \<and> placeholder (n_summary n)"
    using cs(1,3) nt by simp
next
  fix inst vd s0
  assume a: "get_note s pk u = Some inst \<and> is_valid True s u now p = (Validated vd, s0)"
  then have g: "get_note s pk u = Some inst"
    and v: "is_valid True s u now p = (Validated vd, s0)" by simp_all
  from NoteDetailView_put_valid [OF g v, of env] obtain n s' where
    put: "NoteDetailView_put s u now env pk p = (Response 200 (NoteData n), s')"
    and up: "NoteSerializer_update s0 now env inst vd = (n, s')"
    and g': "get_note s' pk u = Some n" by blast
  have vc: "vd_content vd = Some c" using is_valid_fields(3) [OF v] assms(2) by simp
  have "n_content n = c" using NoteSerializer_update_content [OF up vc] .
  moreover have "c \<noteq> n_content inst \<longrightarrow>
      n_summary n = openrouter_summary env c \<and> placeholder (n_summary n)"
    using NoteSerializer_update_summary(1) [OF up] vc
      placeholder_openrouter_summary [OF assms(1), of c] by simp
  ultimately show "\<exists>n s'. NoteDetailView_put s u now env pk p = (Response 200 (NoteData n), s')
               \<and> get_note s' pk u = Some n \<and> n_content n = c
               \<and> (c \<noteq> n_content inst \<longrightarrow>
                     n_summary n = openrouter_summary env c \<and> placeholder (n_summary n))"
    using put g' by blast
qed

theorem summarizer_failure_placeholder_witness:
  "summarizer_failed env_down
   \<and> status_code (fst (CreateNoteView_post init 1 (day 99) env_down (example_payload None))) = 201
   \<and> map n_summary
        (note_table (snd (CreateNoteView_post init 1 (day 99) env_down (example_payload None))))
       = [''Summary unavailable: OPENROUTER_API_KEY not set in .env'']
   \<and> status_code (fst (NoteDetailView_put update_example 1 (day 100) env_down 1 new_content)) = 200
   \<and> map n_summary
        (note_table (snd (NoteDetailView_put update_example 1 (day 100) env_down 1 new_content)))
       = [''Summary unavailable: OPENROUTER_API_KEY not set in .env'']"
proof -
  have f: "summarizer_failed env_down" by code_simp
  have c: "p_content (example_payload None) = Some ''text''" "''text'' \<noteq> []"
    "p_content new_content = Some ''other text''" "''other text'' \<noteq> []"
    by (simp_all add: example_payload_def new_content_def title_only_def)
  have ev: "openrouter_summary env_down ''text''
              = ''Summary unavailable: OPENROUTER_API_KEY not set in .env''"
    "openrouter_summary env_down ''other text''
              = ''Summary unavailable: OPENROUTER_API_KEY not set in .env''"
    "note_table init = []"
    by (simp_all add: openrouter_summary_def env_down_def init_def)
  have v1: "(case fst (is_valid False init 1 (day 99) (example_payload None)) of
              Validated vd \<Rightarrow> True | _ \<Rightarrow> False)"
    by code_simp
  then obtain vd s0 where
    v1': "is_valid False init 1 (day 99) (example_payload None) = (Validated vd, s0)"
    by (cases "is_valid False init 1 (day 99) (example_payload None)")
      (auto split: validation.splits)
  have v2: "(case fst (is_valid True update_example 1 (day 100) new_content) of
              Validated vd \<Rightarrow> True | _ \<Rightarrow> False)"
    "get_note update_example 1 1 \<noteq> None"
    "map n_content (note_table update_example) = [''text'']"
    "length (note_table (snd (NoteDetailView_put update_example 1 (day 100) env_down 1
        new_content))) = 1"
    by code_simp+
  then obtain vd2 s2 where
    v2': "is_valid True update_example 1 (day 100) new_content = (Validated vd2, s2)"
    by (cases "is_valid True update_example 1 (day 100) new_content")
      (auto split: validation.splits)
  from v2(2) obtain inst where g: "get_note update_example 1 1 = Some inst" by blast
  from get_note_SomeD [OF g] v2(3) have stored: "n_content inst = ''text''" by auto
  from summarizer_failure_placeholder [OF f c(1,2), of init 1 "day 99"] v1'
  obtain n s' where
    r1: "CreateNoteView_post init 1 (day 99) env_down (example_payload None)
           = (Response 201 (NoteData n), s')"
    "note_table s' = note_table init @ [n]"
    "n_summary n = openrouter_summary env_down ''text''" by blast
  from summarizer_failure_placeholder [OF f c(3,4), of update_example 1 "day 100" 1] g v2'
  obtain m t where
    r2: "NoteDetailView_put update_example 1 (day 100) env_down 1 new_content
           = (Response 200 (NoteData m), t)"
    "get_note t 1 1 = Some m"
    "''other text'' \<noteq> n_content inst \<longrightarrow> n_summary m = openrouter_summary env_down ''other text''"
    by blast
  from r2(3) stored have sm: "n_summary m = openrouter_summary env_down ''other text''" by simp
  from get_note_SomeD [OF r2(2)] v2(4) r2(1) have "note_table t = [m]"
    by (cases "note_table t") auto
  with r1 r2(1) sm ev f show ?thesis by simp
qed

section \<open>Summary recomputation\<close>

text \<open>
  Claim C6. An update that reaches the serializer calls the summarizer exactly when the
  payload holds a content field that differs from the stored content; the call is made
  on the new content and its result becomes the summary. When the payload has no
  content field or resubmits the stored content, and carries no summary field of its
  own, the stored summary stays as it was.
\<close>

theorem summary_recomputed_iff:
  assumes "get_note s pk u = Some inst"
      and "NoteDetailView_put s u now env pk p = (Response 200 b, s')"
  shows "(summarizer_calls s' \<noteq> summarizer_calls s
            \<longleftrightarrow> (\<exists>c. p_content p = Some c \<and> c \<noteq> n_content inst))
       \<and> (\<forall>c. p_content p = Some c \<and> c \<noteq> n_content inst \<longrightarrow>
             summarizer_calls s' = summarizer_calls s @ [c]
             \<and> (\<exists>n. get_note s' pk u = Some n \<and> n_summary n = openrouter_summary env c))
       \<and> ((p_content p = None \<or> p_content p = Some (n_content inst)) \<and> p_summary p = None
            \<longrightarrow> (\<exists>n. get_note s' pk u = Some n \<and> n_summary n = n_summary inst))"
proof -
  obtain r s0 where v: "is_valid True s u now p = (r, s0)"
    by (cases "is_valid True s u now p")
  from assms v obtain vd where r: "r = Validated vd"
    by (cases r) (auto simp: NoteDetailView_put_def)
  note v = v [unfolded r]
  from NoteDetailView_put_valid [OF assms(1) v, of env] assms(2)
  obtain n where up: "NoteSerializer_update s0 now env inst vd = (n, s')"
    and g': "get_note s' pk u = Some n" by auto
  have calls0: "summarizer_calls s0 = summarizer_calls s"
    using cat_extendsD(5) [OF is_valid_extends(1) [OF v]] .
  note f = is_valid_fields [OF v]
  note su = NoteSerializer_update_summary [OF up, unfolded f calls0]
  show ?thesis
  proof (cases "\<exists>c. p_content p = Some c \<and> c \<noteq> n_content inst")
    case True
    then obtain c where c: "p_content p = Some c" "c \<noteq> n_content inst" by blast
    with su(1) have "summarizer_calls s' = summarizer_calls s @ [c]"
      "n_summary n = openrouter_summary env c" by auto
    with c g' show ?thesis by auto
  next
    case False
    then have "p_content p = None \<or> p_content p = Some (n_content inst)"
      by (cases "p_content p") auto
    from su(2) [OF this] False g' show ?thesis by auto
  qed
qed

theorem summary_recomputed_iff_witness:
  "get_note update_example 1 1 \<noteq> None
   \<and> status_code (fst (NoteDetailView_put update_example 1 (day 100) env_down 1 title_only)) = 200
   \<and> summarizer_calls (snd (NoteDetailView_put update_example 1 (day 100) env_down 1 title_only))
       = summarizer_calls update_example
   \<and> status_code (fst (NoteDetailView_put update_example 1 (day 100) env_down 1 new_content)) = 200
   \<and> summarizer_calls (snd (NoteDetailView_put update_example 1 (day 100) env_down 1 new_content))
       = summarizer_calls update_example @ [''other text'']"
proof -
  have ev: "get_note update_example 1 1 \<noteq> None"
    "status_code (fst (NoteDetailView_put update_example 1 (day 100) env_down 1 title_only)) = 200"
    "status_code (fst (NoteDetailView_put update_example 1 (day 100) env_down 1 new_content)) = 200"
    "map n_content (note_table update_example) = [''text'']"
    by code_simp+
  from ev(1) obtain inst where g: "get_note update_example 1 1 = Some inst" by blast
  from get_note_SomeD [OF g] ev(4) have stored: "n_content inst = ''text''" by auto
  obtain c1 b1 s1 where
    r1: "NoteDetailView_put update_example 1 (day 100) env_down 1 title_only
           = (Response c1 b1, s1)"
    by (metis response.exhaust surj_pair)
  with ev(2) have r1': "NoteDetailView_put update_example 1 (day 100) env_down 1 title_only
           = (Response 200 b1, s1)" by simp
  obtain c2 b2 s2 where
    r2: "NoteDetailView_put update_example 1 (day 100) env_down 1 new_content
           = (Response c2 b2, s2)"
    by (metis response.exhaust surj_pair)
  with ev(3) have r2': "NoteDetailView_put update_example 1 (day 100) env_down 1 new_content
           = (Response 200 b2, s2)" by simp
  have "summarizer_calls s1 = summarizer_calls update_example"
    using summary_recomputed_iff [OF g r1'] by (simp add: title_only_def)
  moreover have "summarizer_calls s2 = summarizer_calls update_example @ [''other text'']"
    using summary_recomputed_iff [OF g r2'] stored by (simp add: new_content_def title_only_def)
  ultimately show ?thesis using ev r1' r2' by simp
qed

section \<open>Restore and ownership\<close>

text \<open>
  Claim C7. A restore request fails with the same 404 answer and leaves the whole state as
  it was when no version id is given, when no version has the given id, when that
  version belongs to another note than the addressed one, and when its note is owned by
  another user than the requester. The four cases give one and the same response.
\<close>

theorem restore_not_found:
  "VersionHistoryView_post s u now note_id None
     = (Response 404 (Message ''error'' ''Version not found''), s)
   \<and> ((\<forall>v\<in>set (version_table s).
          v_id v = i \<longrightarrow> v_note v \<noteq> note_id \<or> \<not> owned_by s (v_note v) u)
        \<longrightarrow> VersionHistoryView_post s u now note_id (Some i)
              = (Response 404 (Message ''error'' ''Version not found''), s))"
proof (intro conjI impI)
  show "VersionHistoryView_post s u now note_id None
     = (Response 404 (Message ''error'' ''Version not found''), s)"
    by (simp add: VersionHistoryView_post_def get_version_def)
next
  assume a: "\<forall>v\<in>set (version_table s).
          v_id v = i \<longrightarrow> v_note v \<noteq> note_id \<or> \<not> owned_by s (v_note v) u"
  have "find (\<lambda>v. v_id v = i \<and> v_note v = note_id \<and> owned_by s (v_note v) u)
          (version_table s) = None"
    using a by (auto simp: find_None_iff)
  then have "get_version s (Some i) note_id u = None"
    by (simp add: get_version_def)
  then show "VersionHistoryView_post s u now note_id (Some i)
              = (Response 404 (Message ''error'' ''Version not found''), s)"
    by (simp add: VersionHistoryView_post_def)
qed

theorem restore_not_found_witness:
  "VersionHistoryView_post history_example 1 (day 100) 1 (Some 9)
       = (Response 404 (Message ''error'' ''Version not found''), history_example)
   \<and> VersionHistoryView_post history_example 1 (day 100) 1 (Some 2)
       = (Response 404 (Message ''error'' ''Version not found''), history_example)
   \<and> VersionHistoryView_post history_example 1 (day 100) 2 (Some 2)
       = (Response 404 (Message ''error'' ''Version not found''), history_example)
   \<and> status_code (fst (VersionHistoryView_post history_example 1 (day 100) 1 (Some 1))) = 200"
proof -
  have h: "\<forall>v\<in>set (version_table history_example).
       v_id v = 9 \<longrightarrow> v_note v \<noteq> 1 \<or> \<not> owned_by history_example (v_note v) 1"
    "\<forall>v\<in>set (version_table history_example).
       v_id v = 2 \<longrightarrow> v_note v \<noteq> 1 \<or> \<not> owned_by history_example (v_note v) 1"
    "\<forall>v\<in>set (version_table history_example).
       v_id v = 2 \<longrightarrow> v_note v \<noteq> 2 \<or> \<not> owned_by history_example (v_note v) 1"
    "status_code (fst (VersionHistoryView_post history_example 1 (day 100) 1 (Some 1))) = 200"
    by code_simp+
  show ?thesis
    using h restore_not_found [of history_example 1 "day 100" 1 9]
      restore_not_found [of history_example 1 "day 100" 1 2]
      restore_not_found [of history_example 1 "day 100" 2 2]
    by blast
qed

text \<open>
  Claim C8. In every state reached from the empty database by create, update, save_draft,
  restore and delete requests, no two stored versions share note and version number; the
  versions of a note, in the order of their insertion, carry the numbers 1, 2, 3, ...;
  version keys are handed out in increasing order, and of two versions of one note the
  one inserted later (the one with the larger key) has the larger version number.
\<close>

theorem version_numbers_unique_increasing:
  "distinct (map (\<lambda>v. (v_note v, v_version_number v)) (version_table (run rs init)))
   \<and> map v_version_number (versions_of (run rs init) nid)
       = map Suc [0..<length (versions_of (run rs init) nid)]
   \<and> sorted_wrt (<) (map v_id (version_table (run rs init)))
   \<and> (\<forall>a\<in>set (version_table (run rs init)). \<forall>b\<in>set (version_table (run rs init)).
         v_note a = v_note b \<and> v_id a < v_id b \<longrightarrow> v_version_number a < v_version_number b)"
proof -
  let ?s = "run rs init"
  have wf: "wf ?s" by (rule wf_reachable)
  then have num: "numbered ?s" and ids: "sorted_wrt (<) (map v_id (version_table ?s))"
    by (simp_all add: wf_def version_ids_ok_def)
  have 1: "distinct (map (\<lambda>v. (v_note v, v_version_number v)) (version_table ?s))"
    by (rule distinct_pairs) (use numbered_distinct [OF num] in \<open>simp add: versions_of_def\<close>)
  have 2: "map v_version_number (versions_of ?s nid) = map Suc [0..<length (versions_of ?s nid)]"
    using num by (simp add: numbered_def)
  have inc: "sorted_wrt (\<lambda>a b. v_note a = v_note b \<longrightarrow> v_version_number a < v_version_number b)
               (version_table ?s)"
    by (rule numbered_increasing) (use num in \<open>simp add: numbered_def versions_of_def\<close>)
  have ids': "sorted_wrt (\<lambda>a b. v_id a < v_id b) (version_table ?s)"
    using ids by (simp add: sorted_wrt_map)
  have 4: "\<forall>a\<in>set (version_table ?s). \<forall>b\<in>set (version_table ?s).
         v_note a = v_note b \<and> v_id a < v_id b \<longrightarrow> v_version_number a < v_version_number b"
  proof (intro ballI impI)
    fix a b
    assume a: "a \<in> set (version_table ?s)" and b: "b \<in> set (version_table ?s)"
      and ab: "v_note a = v_note b \<and> v_id a < v_id b"
    from ab have ne: "a \<noteq> b" and nlt: "\<not> v_id b < v_id a" by auto
    from sorted_wrt_pair [OF sorted_wrt_both [OF ids' inc] a b] ne nlt ab
    show "v_version_number a < v_version_number b" by blast
  qed
  from 1 2 ids 4 show ?thesis by blast
qed

theorem version_numbers_unique_increasing_witness:
  "map v_id (version_table (run numbering_requests init)) = [1, 3, 4]
   \<and> map v_note (version_table (run numbering_requests init)) = [1, 1, 1]
   \<and> map v_version_number (versions_of (run numbering_requests init) 1) = [1, 2, 3]
   \<and> distinct (map (\<lambda>v. (v_note v, v_version_number v))
                  (version_table (run numbering_requests init)))"
proof -
  have ev: "map v_id (version_table (run numbering_requests init)) = [1, 3, 4]"
    "map v_note (version_table (run numbering_requests init)) = [1, 1, 1]"
    "length (versions_of (run numbering_requests init) 1) = 3"
    by code_simp+
  have "[0..<3] = [0, 1, 2]" by (simp add: upt_rec)
  with version_numbers_unique_increasing [of numbering_requests 1] ev show ?thesis by simp
qed

section \<open>Requests that fail validation\<close>











section \<open>Version history listing\<close>









end
